theory Spec2Isabelle
  imports Complex_Main "HOL-Library.Finite_Map"
begin

section \<open>Data model of \<^verbatim>\<open>lightpath.py\<close>\<close>

text \<open>
  A port is a Python integer or \<^verbatim>\<open>None\<close> (unknown). A normalized link is the
  four-key dict that \<^verbatim>\<open>get_topology_links\<close> appends. The graph is the
  \<^verbatim>\<open>defaultdict(list)\<close> of \<^verbatim>\<open>build_switch_graph\<close>: a finite map from a
  switch identifier to its list of \<^verbatim>\<open>(neighbor, local port, neighbor port)\<close> tuples.
\<close>

type_synonym port = "int option"

type_synonym entry = "string \<times> port \<times> port"

type_synonym graph = "(string, entry list) fmap"

record link =
  src :: string
  src_port :: port
  dst :: string
  dst_port :: port

datatype py_error =
  IndexError | KeyError | ValueError | AttributeError | TypeError | OverflowError
  | UnicodeEncodeError | RequestError

section \<open>Graph builder\<close>

text \<open>\<^verbatim>\<open>graph.get(node, [])\<close>: the adjacency list, empty for an absent key.\<close>

definition graph_get :: "graph \<Rightarrow> string \<Rightarrow> entry list" where
  "graph_get g sw = (case fmlookup g sw of None \<Rightarrow> [] | Some es \<Rightarrow> es)"

text \<open>\<^verbatim>\<open>graph[sw].append(e)\<close> on a \<^verbatim>\<open>defaultdict(list)\<close>: an absent key starts empty.\<close>

definition graph_append :: "graph \<Rightarrow> string \<Rightarrow> entry \<Rightarrow> graph" where
  "graph_append g sw e = fmupd sw (graph_get g sw @ [e]) g"

text \<open>The body of the loop of \<^verbatim>\<open>build_switch_graph\<close>; \<^verbatim>\<open>not src\<close> on a string is emptiness.\<close>

definition add_link :: "graph \<Rightarrow> link \<Rightarrow> graph" where
  "add_link g l =
     (if src l = [] \<or> dst l = [] then g
      else graph_append
             (graph_append g (src l) (dst l, src_port l, dst_port l))
             (dst l) (src l, dst_port l, src_port l))"

definition build_switch_graph :: "link list \<Rightarrow> graph" where
  "build_switch_graph links = foldl add_link fmempty links"

section \<open>Path engine\<close>

text \<open>
  The inner \<^verbatim>\<open>for (nbr, _, _) in graph.get(node, [])\<close> loop of
  \<^verbatim>\<open>shortest_switch_path\<close>. It either returns the found path (\<open>Inl\<close>) or ends
  with the updated visited set and queue (\<open>Inr\<close>).
\<close>

fun expand_nbrs ::
  "string \<Rightarrow> string list \<Rightarrow> entry list \<Rightarrow> string set \<Rightarrow> string list list
     \<Rightarrow> string list + (string set \<times> string list list)" where
  "expand_nbrs dst_sw path [] visited q = Inr (visited, q)"
| "expand_nbrs dst_sw path ((nbr, _, _) # es) visited q =
     (if nbr \<in> visited then expand_nbrs dst_sw path es visited q
      else if nbr = dst_sw then Inl (path @ [nbr])
      else expand_nbrs dst_sw path es (insert nbr visited) (q @ [path @ [nbr]]))"

text \<open>Every switch named as a neighbor somewhere in the graph.\<close>

definition nbr_universe :: "graph \<Rightarrow> string set" where
  "nbr_universe g = (\<Union>es \<in> fmran' g. fst ` set es)"

lemma finite_nbr_universe: "finite (nbr_universe g)"
  by (simp add: nbr_universe_def fmran'_alt_def)

lemma graph_get_universe: "fst ` set (graph_get g sw) \<subseteq> nbr_universe g"
proof
  fix n assume "n \<in> fst ` set (graph_get g sw)"
  then obtain es where look: "fmlookup g sw = Some es" and n: "n \<in> fst ` set es"
    by (cases "fmlookup g sw") (simp_all add: graph_get_def)
  from look have "es \<in> fmran' g" by (rule fmran'I)
  with n show "n \<in> nbr_universe g"
    unfolding nbr_universe_def by blast
qed

lemma expand_nbrs_measure:
  assumes "expand_nbrs d path es V q = Inr (V', q')" and "fst ` set es \<subseteq> U" and "finite U"
  shows "length q' + card (U - V') = length q + card (U - V)"
  using assms
proof (induction es arbitrary: V q)
  case Nil
  then show ?case by simp
next
  case (Cons e es)
  obtain n a b where e: "e = (n, a, b)" by (cases e)
  show ?case
  proof (cases "n \<in> V")
    case True
    with Cons e show ?thesis by simp
  next
    case False
    with Cons.prems e have nd: "n \<noteq> d" by (auto split: if_splits)
    from Cons.prems e False nd
    have step: "expand_nbrs d path es (insert n V) (q @ [path @ [n]]) = Inr (V', q')"
      by simp
    from Cons.prems e have nU: "n \<in> U" by auto
    have "length q' + card (U - V') = length (q @ [path @ [n]]) + card (U - insert n V)"
      using Cons.IH [OF step] Cons.prems by auto
    moreover have "card (U - V) = Suc (card (U - insert n V))"
    proof -
      have "U - V = insert n (U - insert n V)" using nU False by auto
      moreover have "n \<notin> U - insert n V" by simp
      moreover have "finite (U - insert n V)" using Cons.prems by simp
      ultimately show ?thesis by (metis card_insert_disjoint)
    qed
    ultimately show ?thesis by simp
  qed
qed

text \<open>
  The \<^verbatim>\<open>while q\<close> loop. \<^verbatim>\<open>path[-1]\<close> raises \<^verbatim>\<open>IndexError\<close> on an empty path.
\<close>

function bfs_loop ::
  "graph \<Rightarrow> string \<Rightarrow> string list list \<Rightarrow> string set \<Rightarrow> py_error + string list option" where
  "bfs_loop g dst_sw [] visited = Inr None"
| "bfs_loop g dst_sw (path # q) visited =
     (if path = [] then Inl IndexError
      else (case expand_nbrs dst_sw path (graph_get g (last path)) visited q of
              Inl newpath \<Rightarrow> Inr (Some newpath)
            | Inr (visited', q') \<Rightarrow> bfs_loop g dst_sw q' visited'))"
  by pat_completeness auto
termination
proof (relation "measure (\<lambda>(g, d, q, V). length q + card (nbr_universe g - V))")
  show "wf (measure (\<lambda>(g, d, q, V). length q + card (nbr_universe g - V)))" by simp
next
  fix g :: graph and dst_sw path q visited x2 x y
  assume "path \<noteq> []"
    and "expand_nbrs dst_sw path (graph_get g (last path)) visited q = Inr x2"
    and "(x, y) = x2"
  then have "expand_nbrs dst_sw path (graph_get g (last path)) visited q = Inr (x, y)"
    by simp
  from expand_nbrs_measure [OF this graph_get_universe finite_nbr_universe]
  show "((g, dst_sw, y, x), (g, dst_sw, path # q, visited))
          \<in> measure (\<lambda>(g, d, q, V). length q + card (nbr_universe g - V))"
    by simp
qed

definition shortest_switch_path ::
  "graph \<Rightarrow> string \<Rightarrow> string \<Rightarrow> py_error + string list option" where
  "shortest_switch_path g src_sw dst_sw =
     (if src_sw = dst_sw then Inr (Some [src_sw])
      else bfs_loop g dst_sw [[src_sw]] {src_sw})"

section \<open>Symmetry of the built graph\<close>

lemma graph_get_append:
  "graph_get (graph_append g sw e) sw' =
     (if sw' = sw then graph_get g sw @ [e] else graph_get g sw')"
  by (simp add: graph_append_def graph_get_def)

lemma graph_get_empty: "graph_get fmempty sw = []"
  by (simp add: graph_get_def)

lemma add_link_symmetric:
  assumes "\<And>A B p q. ((B, p, q) \<in> set (graph_get g A)) = ((A, q, p) \<in> set (graph_get g B))"
  shows "((B, p, q) \<in> set (graph_get (add_link g l) A))
           = ((A, q, p) \<in> set (graph_get (add_link g l) B))"
  using assms [of B p q A] by (auto simp: add_link_def graph_get_append)

lemma foldl_add_link_symmetric:
  assumes "\<And>A B p q. ((B, p, q) \<in> set (graph_get g A)) = ((A, q, p) \<in> set (graph_get g B))"
  shows "((B, p, q) \<in> set (graph_get (foldl add_link g ls) A))
           = ((A, q, p) \<in> set (graph_get (foldl add_link g ls) B))"
  using assms
proof (induction ls arbitrary: g A B p q)
  case Nil
  then show ?case by simp
next
  case (Cons l ls)
  show ?case
    unfolding foldl_Cons
    by (rule Cons.IH) (rule add_link_symmetric, rule Cons.prems)
qed

text \<open>
  Claim C2. For every list of normalized links and all switches \<open>A\<close>, \<open>B\<close> and ports
  \<open>p\<close>, \<open>q\<close>: the adjacency list of \<open>A\<close> in the built graph contains \<open>(B, p, q)\<close> exactly
  when the adjacency list of \<open>B\<close> contains \<open>(A, q, p)\<close>.
\<close>

theorem build_switch_graph_symmetric:
  "((B, p, q) \<in> set (graph_get (build_switch_graph links) A))
     = ((A, q, p) \<in> set (graph_get (build_switch_graph links) B))"
  unfolding build_switch_graph_def
  by (rule foldl_add_link_symmetric) (simp add: graph_get_empty)

section \<open>Correctness of the breadth-first search\<close>

text \<open>
  A walk follows adjacency entries: each switch is named as a neighbor in the adjacency
  list of the one before it. \<open>connects g s d p\<close>: the walk \<open>p\<close> starts at \<open>s\<close> and ends
  at \<open>d\<close>. Its hop count is its number of links.
\<close>

definition nbrs :: "graph \<Rightarrow> string \<Rightarrow> string set" where
  "nbrs g u = fst ` set (graph_get g u)"

fun switch_walk :: "graph \<Rightarrow> string list \<Rightarrow> bool" where
  "switch_walk g [] = False"
| "switch_walk g [x] = True"
| "switch_walk g (x # y # r) = (y \<in> nbrs g x \<and> switch_walk g (y # r))"

definition connects :: "graph \<Rightarrow> string \<Rightarrow> string \<Rightarrow> string list \<Rightarrow> bool" where
  "connects g s d p = (p \<noteq> [] \<and> hd p = s \<and> last p = d \<and> switch_walk g p)"

lemma walk_snoc:
  "switch_walk g (p @ [v]) = (p = [] \<or> (switch_walk g p \<and> v \<in> nbrs g (last p)))"
  by (induction g p rule: switch_walk.induct) auto

lemma walk_closed:
  "switch_walk g p \<Longrightarrow> hd p \<in> V \<Longrightarrow> (\<forall>v\<in>V. nbrs g v \<subseteq> V) \<Longrightarrow> set p \<subseteq> V"
  by (induction g p rule: switch_walk.induct) auto

lemma expand_nbrs_Inr:
  "expand_nbrs d path es V q = Inr (V', q') \<Longrightarrow>
     \<exists>news. q' = q @ map (\<lambda>n. path @ [n]) news \<and> V' = V \<union> set news
       \<and> set news = fst ` set es - V \<and> d \<notin> set news"
proof (induction es arbitrary: V q)
  case Nil
  then show ?case by simp
next
  case (Cons e es)
  obtain n a b where e: "e = (n, a, b)" by (cases e)
  show ?case
  proof (cases "n \<in> V")
    case True
    with Cons.prems e have "expand_nbrs d path es V q = Inr (V', q')" by simp
    from Cons.IH [OF this] obtain news where
      "q' = q @ map (\<lambda>n. path @ [n]) news" "V' = V \<union> set news"
      "set news = fst ` set es - V" "d \<notin> set news" by blast
    with True e show ?thesis by (intro exI [of _ news]) auto
  next
    case False
    with Cons.prems e have nd: "n \<noteq> d" by (auto split: if_splits)
    from Cons.prems e False nd
    have "expand_nbrs d path es (insert n V) (q @ [path @ [n]]) = Inr (V', q')" by simp
    from Cons.IH [OF this] obtain news where
      "q' = (q @ [path @ [n]]) @ map (\<lambda>n. path @ [n]) news" "V' = insert n V \<union> set news"
      "set news = fst ` set es - insert n V" "d \<notin> set news" by blast
    with False e nd show ?thesis by (intro exI [of _ "n # news"]) auto
  qed
qed

lemma expand_nbrs_Inl:
  "expand_nbrs d path es V q = Inl p \<Longrightarrow> p = path @ [d] \<and> d \<in> fst ` set es \<and> d \<notin> V"
proof (induction es arbitrary: V q)
  case Nil
  then show ?case by simp
next
  case (Cons e es)
  obtain n a b where e: "e = (n, a, b)" by (cases e)
  show ?case
  proof (cases "n \<in> V")
    case True
    with Cons e show ?thesis by auto
  next
    case False
    show ?thesis
    proof (cases "n = d")
      case True
      with Cons.prems e False show ?thesis by auto
    next
      case nd: False
      with Cons.prems e False
      have "expand_nbrs d path es (insert n V) (q @ [path @ [n]]) = Inl p" by simp
      from Cons.IH [OF this] e show ?thesis by auto
    qed
  qed
qed

definition shortest_to :: "graph \<Rightarrow> string \<Rightarrow> string list \<Rightarrow> bool" where
  "shortest_to g s p = (\<forall>p'. connects g s (last p) p' \<longrightarrow> length p \<le> length p')"

definition good_path :: "graph \<Rightarrow> string \<Rightarrow> string set \<Rightarrow> string list \<Rightarrow> bool" where
  "good_path g s V p =
     (connects g s (last p) p \<and> distinct p \<and> set p \<subseteq> V \<and> shortest_to g s p)"

definition bfs_inv :: "graph \<Rightarrow> string \<Rightarrow> string \<Rightarrow> string list list \<Rightarrow> string set \<Rightarrow> bool" where
  "bfs_inv g s d q V =
     (s \<in> V \<and> d \<notin> V
      \<and> (\<forall>p\<in>set q. good_path g s V p)
      \<and> sorted (map length q)
      \<and> (\<forall>p\<in>set q. length p \<le> Suc (length (hd q)))
      \<and> (\<forall>v\<in>V. v \<in> last ` set q \<or> nbrs g v \<subseteq> V)
      \<and> (q \<noteq> [] \<longrightarrow> (\<forall>v p'. connects g s v p' \<and> length p' \<le> length (hd q) \<longrightarrow> v \<in> V)))"

lemma bfs_inv_init: "s \<noteq> d \<Longrightarrow> bfs_inv g s d [[s]] {s}"
  unfolding bfs_inv_def good_path_def shortest_to_def connects_def
  by (auto simp: Suc_le_eq length_Suc_conv le_Suc_eq)

lemma bfs_inv_empty:
  assumes "bfs_inv g s d [] V"
  shows "\<not> connects g s d p"
proof
  assume c: "connects g s d p"
  from assms have sV: "s \<in> V" and dV: "d \<notin> V" and cl: "\<forall>v\<in>V. nbrs g v \<subseteq> V"
    by (auto simp: bfs_inv_def)
  from c have "switch_walk g p" "hd p = s" "p \<noteq> []" "last p = d"
    by (auto simp: connects_def)
  with walk_closed [of g p V] sV cl have "set p \<subseteq> V" by simp
  with \<open>p \<noteq> []\<close> \<open>last p = d\<close> dV show False
    using last_in_set by blast
qed

lemma bfs_inv_found:
  assumes inv: "bfs_inv g s d (path # q) V"
    and ex: "expand_nbrs d path (graph_get g (last path)) V q = Inl p"
  shows "connects g s d p \<and> distinct p
           \<and> (\<forall>p'. connects g s d p' \<longrightarrow> length p \<le> length p')"
proof -
  from expand_nbrs_Inl [OF ex]
  have p: "p = path @ [d]" and dn: "d \<in> nbrs g (last path)" and dV: "d \<notin> V"
    by (auto simp: nbrs_def)
  from inv have gp: "good_path g s V path"
    and lvl: "\<forall>v p'. connects g s v p' \<and> length p' \<le> length path \<longrightarrow> v \<in> V"
    by (auto simp: bfs_inv_def)
  from gp have c: "connects g s (last path) path" and dist: "distinct path"
    and sub: "set path \<subseteq> V"
    by (auto simp: good_path_def)
  from c dn have "connects g s d p"
    unfolding p connects_def by (auto simp: walk_snoc)
  moreover from dist sub dV have "distinct p" unfolding p by auto
  moreover have "\<forall>p'. connects g s d p' \<longrightarrow> length p \<le> length p'"
  proof (intro allI impI)
    fix p' assume "connects g s d p'"
    with lvl dV have "\<not> length p' \<le> length path" by blast
    then show "length p \<le> length p'" unfolding p by simp
  qed
  ultimately show ?thesis by blast
qed

lemma sorted_hd_le:
  "sorted (map f xs) \<Longrightarrow> x \<in> set xs \<Longrightarrow> f (hd xs) \<le> f x"
  by (cases xs) auto

lemma bfs_inv_step:
  assumes inv: "bfs_inv g s d (path # q) V"
    and ex: "expand_nbrs d path (graph_get g (last path)) V q = Inr (V', q')"
  shows "bfs_inv g s d q' V'"
proof -
  from expand_nbrs_Inr [OF ex] obtain news where
    q': "q' = q @ map (\<lambda>n. path @ [n]) news" and V': "V' = V \<union> set news"
    and news: "set news = nbrs g (last path) - V" and dn: "d \<notin> set news"
    by (auto simp: nbrs_def)
  from inv have sV: "s \<in> V" and dV: "d \<notin> V"
    and gp: "good_path g s V path"
    and gq: "\<forall>p\<in>set q. good_path g s V p"
    and srt: "sorted (map length q)" and lo: "\<forall>p\<in>set q. length path \<le> length p"
    and hi: "\<forall>p\<in>set q. length p \<le> Suc (length path)"
    and cl: "\<forall>v\<in>V. v = last path \<or> v \<in> last ` set q \<or> nbrs g v \<subseteq> V"
    and lvl: "\<forall>v p'. connects g s v p' \<and> length p' \<le> length path \<longrightarrow> v \<in> V"
    by (auto simp: bfs_inv_def)
  from gp have c: "connects g s (last path) path" and dist: "distinct path"
    and sub: "set path \<subseteq> V"
    by (auto simp: good_path_def)
  from c have ne: "path \<noteq> []" by (simp add: connects_def)
  have mono: "good_path g s V p \<Longrightarrow> good_path g s V' p" for p
    unfolding good_path_def V' by auto
  have new_good: "good_path g s V' (path @ [n])" if n: "n \<in> set news" for n
  proof -
    from n news have nn: "n \<in> nbrs g (last path)" and nV: "n \<notin> V" by auto
    from c nn have "connects g s n (path @ [n])"
      unfolding connects_def by (auto simp: walk_snoc)
    moreover from dist sub nV have "distinct (path @ [n])" by auto
    moreover from sub n have "set (path @ [n]) \<subseteq> V'" unfolding V' by auto
    moreover have "shortest_to g s (path @ [n])"
      unfolding shortest_to_def
    proof (intro allI impI)
      fix p' assume "connects g s (last (path @ [n])) p'"
      then have "connects g s n p'" by simp
      with lvl nV have "\<not> length p' \<le> length path" by blast
      then show "length (path @ [n]) \<le> length p'" by simp
    qed
    ultimately show ?thesis by (simp add: good_path_def)
  qed
  have good: "\<forall>p\<in>set q'. good_path g s V' p"
    unfolding q' using gq mono new_good by auto
  have lo': "\<forall>p\<in>set q'. length path \<le> length p"
    unfolding q' using lo by auto
  have hi': "\<forall>p\<in>set q'. length p \<le> Suc (length path)"
    unfolding q' using hi by auto
  have srt': "sorted (map length q')"
    unfolding q' using srt hi by (auto simp: sorted_append sorted_map comp_def)
  have bound: "\<forall>p\<in>set q'. length p \<le> Suc (length (hd q'))"
  proof
    fix p assume p: "p \<in> set q'"
    then have "q' \<noteq> []" by auto
    then have "hd q' \<in> set q'" by simp
    with lo' have "length path \<le> length (hd q')" by blast
    with hi' p show "length p \<le> Suc (length (hd q'))" by fastforce
  qed
  have cl': "\<forall>v\<in>V'. v \<in> last ` set q' \<or> nbrs g v \<subseteq> V'"
  proof
    fix v assume "v \<in> V'"
    then consider "v \<in> set news" | "v \<in> V" unfolding V' by blast
    then show "v \<in> last ` set q' \<or> nbrs g v \<subseteq> V'"
    proof cases
      case 1
      then have "path @ [v] \<in> set q'" unfolding q' by auto
      then have "last (path @ [v]) \<in> last ` set q'" by (rule imageI)
      then show ?thesis by simp
    next
      case 2
      with cl consider "v = last path" | "v \<in> last ` set q" | "nbrs g v \<subseteq> V" by blast
      then show ?thesis
      proof cases
        case 1
        with news show ?thesis unfolding V' by auto
      next
        case 2
        then show ?thesis unfolding q' by auto
      next
        case 3
        then show ?thesis unfolding V' by auto
      qed
    qed
  qed
  have lvl': "\<forall>v p'. connects g s v p' \<and> length p' \<le> length (hd q') \<longrightarrow> v \<in> V'"
    if qne: "q' \<noteq> []"
  proof (intro allI impI)
    fix v p' assume a: "connects g s v p' \<and> length p' \<le> length (hd q')"
    from qne have hq: "hd q' \<in> set q'" by simp
    show "v \<in> V'"
    proof (cases "length p' \<le> length path")
      case True
      with a lvl have "v \<in> V" by blast
      then show ?thesis unfolding V' by simp
    next
      case False
      with a hi' hq have len: "length p' = Suc (length path)"
        and hlen: "length (hd q') = Suc (length path)" by fastforce+
      from ne len have "2 \<le> length p'" by (cases path) auto
      then obtain p0 w where p': "p' = p0 @ [w]" and p0: "p0 \<noteq> []"
        by (cases p' rule: rev_cases) (auto simp: Suc_le_eq)
      from a p' have w: "w = v" by (simp add: connects_def)
      from a p0 have c0: "connects g s (last p0) p0" and vn: "v \<in> nbrs g (last p0)"
        unfolding p' w connects_def by (auto simp: walk_snoc)
      from len p' have l0: "length p0 = length path" by simp
      from lvl c0 have "length p0 \<le> length path \<Longrightarrow> last p0 \<in> V" by blast
      with l0 have "last p0 \<in> V" by simp
      then have "last p0 \<in> V'" unfolding V' by simp
      with cl' consider "last p0 \<in> last ` set q'" | "nbrs g (last p0) \<subseteq> V'" by blast
      then show ?thesis
      proof cases
        case 1
        then obtain p1 where p1: "p1 \<in> set q'" and l1: "last p1 = last p0" by auto
        from good p1 have "shortest_to g s p1" by (simp add: good_path_def)
        with c0 l1 have "length p1 \<le> length p0" by (simp add: shortest_to_def)
        moreover from sorted_hd_le [OF srt' p1] hlen have "Suc (length path) \<le> length p1"
          by simp
        ultimately show ?thesis using l0 by simp
      next
        case 2
        with vn show ?thesis by blast
      qed
    qed
  qed
  from sV dV dn have "s \<in> V'" "d \<notin> V'" unfolding V' by auto
  with good srt' bound cl' lvl' show ?thesis
    unfolding bfs_inv_def by blast
qed

lemma bfs_loop_correct:
  "bfs_inv g s d q V \<Longrightarrow>
     \<exists>r. bfs_loop g d q V = Inr r \<and>
       (case r of None \<Rightarrow> (\<forall>p. \<not> connects g s d p)
        | Some p \<Rightarrow> connects g s d p \<and> distinct p
            \<and> (\<forall>p'. connects g s d p' \<longrightarrow> length p \<le> length p'))"
proof (induction g d q V rule: bfs_loop.induct)
  case (1 g d V)
  then show ?case using bfs_inv_empty by simp
next
  case (2 g d path q V)
  from "2.prems" have ne: "path \<noteq> []"
    by (auto simp: bfs_inv_def good_path_def connects_def)
  show ?case
  proof (cases "expand_nbrs d path (graph_get g (last path)) V q")
    case (Inl p)
    with bfs_inv_found [OF "2.prems" Inl] ne show ?thesis by simp
  next
    case (Inr vq)
    obtain V' q' where vq: "vq = (V', q')" by (cases vq)
    from bfs_inv_step [OF "2.prems"] Inr vq have "bfs_inv g s d q' V'" by simp
    from "2.IH" [OF ne Inr vq [symmetric] this] Inr vq ne show ?thesis by simp
  qed
qed

definition hop_count :: "string list \<Rightarrow> nat" where
  "hop_count p = length p - 1"

definition line3_links :: "link list" where
  "line3_links =
     [\<lparr>src = ''s1'', src_port = Some 2, dst = ''s2'', dst_port = Some 2\<rparr>,
      \<lparr>src = ''s2'', src_port = Some 3, dst = ''s3'', dst_port = Some 2\<rparr>]"

lemma line3_graph:
  "build_switch_graph line3_links = fmap_of_list
     [(''s1'', [(''s2'', Some 2, Some 2)]),
      (''s2'', [(''s1'', Some 2, Some 2), (''s3'', Some 3, Some 2)]),
      (''s3'', [(''s2'', Some 2, Some 3)])]"
  by (rule fmap_ext)
    (auto simp: build_switch_graph_def line3_links_def add_link_def graph_append_def graph_get_def)

lemma line3_path:
  "shortest_switch_path (build_switch_graph line3_links) ''s1'' ''s3''
     = Inr (Some [''s1'', ''s2'', ''s3''])"
  by (simp add: line3_graph shortest_switch_path_def graph_get_def)

text \<open>
  Claim C1. For every graph (a finite map) and every \<open>src_sw\<close>, \<open>dst_sw\<close>, the search
  returns (it neither loops nor raises); it returns \<^verbatim>\<open>None\<close> exactly when no walk
  connects \<open>src_sw\<close> to \<open>dst_sw\<close>; and a returned path is non-empty, connects
  \<open>src_sw\<close> to \<open>dst_sw\<close>, and has the least hop count among all connecting walks.
\<close>

theorem shortest_switch_path_minimal:
  "\<exists>r. shortest_switch_path g src_sw dst_sw = Inr r
     \<and> ((r = None) = (\<forall>p. \<not> connects g src_sw dst_sw p))
     \<and> (\<forall>p. r = Some p \<longrightarrow>
           p \<noteq> [] \<and> connects g src_sw dst_sw p
           \<and> (\<forall>p'. connects g src_sw dst_sw p' \<longrightarrow> hop_count p \<le> hop_count p'))"
proof (cases "src_sw = dst_sw")
  case True
  have "connects g src_sw dst_sw [src_sw]" using True by (simp add: connects_def)
  then show ?thesis using True
    by (auto simp: shortest_switch_path_def hop_count_def)
next
  case False
  from bfs_loop_correct [OF bfs_inv_init [OF False], of g]
  obtain r where r: "bfs_loop g dst_sw [[src_sw]] {src_sw} = Inr r"
    and c: "case r of None \<Rightarrow> (\<forall>p. \<not> connects g src_sw dst_sw p)
        | Some p \<Rightarrow> connects g src_sw dst_sw p \<and> distinct p
            \<and> (\<forall>p'. connects g src_sw dst_sw p' \<longrightarrow> length p \<le> length p')"
    by blast
  from False r have "shortest_switch_path g src_sw dst_sw = Inr r"
    by (simp add: shortest_switch_path_def)
  moreover from c have "(r = None) = (\<forall>p. \<not> connects g src_sw dst_sw p)"
    by (cases r) auto
  moreover from c have "\<forall>p. r = Some p \<longrightarrow>
           p \<noteq> [] \<and> connects g src_sw dst_sw p
           \<and> (\<forall>p'. connects g src_sw dst_sw p' \<longrightarrow> hop_count p \<le> hop_count p')"
    by (cases r) (auto simp: hop_count_def connects_def diff_le_mono)
  ultimately show ?thesis by blast
qed

theorem shortest_switch_path_minimal_witness:
  "shortest_switch_path (build_switch_graph line3_links) ''s1'' ''s3''
       = Inr (Some [''s1'', ''s2'', ''s3''])
   \<and> connects (build_switch_graph line3_links) ''s1'' ''s3'' [''s1'', ''s2'', ''s3'']
   \<and> hop_count [''s1'', ''s2'', ''s3''] = 2
   \<and> (\<forall>p'. \<not> (connects (build_switch_graph line3_links) ''s1'' ''s3'' p' \<and> hop_count p' < 2))"
  using shortest_switch_path_minimal [of "build_switch_graph line3_links" "''s1''" "''s3''"]
  by (auto simp: line3_path hop_count_def)

section \<open>Port resolver\<close>

text \<open>
  The two inner loops of \<^verbatim>\<open>path_ports_for_switches\<close> stop at the first adjacency
  entry that names the wanted neighbor and take its local port; with no such entry the
  port stays \<^verbatim>\<open>None\<close>.
\<close>

fun port_toward :: "entry list \<Rightarrow> string \<Rightarrow> port" where
  "port_toward [] nb = None"
| "port_toward ((nbr, src_p, dst_p) # es) nb =
     (if nbr = nb then src_p else port_toward es nb)"

text \<open>The body of the \<^verbatim>\<open>for i, sw in enumerate(switch_path)\<close> loop at index \<open>i\<close>.\<close>

definition hop_ports_at :: "graph \<Rightarrow> string list \<Rightarrow> nat \<Rightarrow> port \<times> port" where
  "hop_ports_at g switch_path i =
     (let sw = switch_path ! i;
          in_port = (if 0 < i then port_toward (graph_get g sw) (switch_path ! (i - 1))
                     else None);
          out_port = (if Suc i < length switch_path
                      then port_toward (graph_get g sw) (switch_path ! (i + 1))
                      else None)
      in (in_port, out_port))"

text \<open>The loop stores \<^verbatim>\<open>hop_ports[sw] = (in_port, out_port)\<close> for each index in order.\<close>

definition path_ports_for_switches ::
  "graph \<Rightarrow> string list \<Rightarrow> (string, port \<times> port) fmap" where
  "path_ports_for_switches g switch_path =
     foldl (\<lambda>hop_ports i. fmupd (switch_path ! i) (hop_ports_at g switch_path i) hop_ports)
       fmempty [0..<length switch_path]"

lemma path_ports_prefix:
  assumes "distinct p" and "n \<le> length p" and "i < n"
  shows "fmlookup (foldl (\<lambda>hp i. fmupd (p ! i) (hop_ports_at g p i) hp) fmempty [0..<n]) (p ! i)
           = Some (hop_ports_at g p i)"
  using assms(2,3)
proof (induction n)
  case 0
  then show ?case by simp
next
  case (Suc n)
  show ?case
  proof (cases "i = n")
    case True
    then show ?thesis by simp
  next
    case False
    with Suc.prems have i: "i < n" and n: "n < length p" by simp_all
    with assms(1) have "p ! i \<noteq> p ! n" by (simp add: nth_eq_iff_index_eq)
    with Suc.IH i n show ?thesis by simp
  qed
qed

lemma path_ports_lookup:
  "distinct p \<Longrightarrow> i < length p \<Longrightarrow>
     fmlookup (path_ports_for_switches g p) (p ! i) = Some (hop_ports_at g p i)"
  unfolding path_ports_for_switches_def by (rule path_ports_prefix) simp_all

lemma path_ports_dom_prefix:
  "fmdom' (foldl (\<lambda>hp i. fmupd (p ! i) (hop_ports_at g p i) hp) fmempty [0..<n])
     = (\<lambda>i. p ! i) ` {0..<n}"
  by (induction n) (auto simp: atLeast0_lessThan_Suc)

lemma path_ports_dom: "fmdom' (path_ports_for_switches g p) = set p"
  unfolding path_ports_for_switches_def path_ports_dom_prefix
  by (auto simp: set_conv_nth)

lemma shortest_switch_path_props:
  assumes "shortest_switch_path g s d = Inr (Some p)"
  shows "connects g s d p \<and> distinct p"
proof (cases "s = d")
  case True
  with assms show ?thesis by (auto simp: shortest_switch_path_def connects_def)
next
  case False
  from bfs_loop_correct [OF bfs_inv_init [OF False], of g] assms False
  show ?thesis by (auto simp: shortest_switch_path_def)
qed

text \<open>
  Claim C10. Every path returned by \<^verbatim>\<open>shortest_switch_path\<close> is non-empty, starts at
  the source switch, ends at the destination switch and names no switch twice; hence the
  per-hop port mapping keyed by switch has exactly one key per hop of the path.
\<close>

theorem shortest_switch_path_simple:
  assumes "shortest_switch_path g src_sw dst_sw = Inr (Some p)"
  shows "p \<noteq> [] \<and> hd p = src_sw \<and> last p = dst_sw \<and> distinct p
     \<and> fmdom' (path_ports_for_switches g p) = set p
     \<and> card (fmdom' (path_ports_for_switches g p)) = length p"
  using shortest_switch_path_props [OF assms]
  by (simp add: connects_def path_ports_dom distinct_card)

theorem shortest_switch_path_simple_witness:
  "shortest_switch_path (build_switch_graph line3_links) ''s1'' ''s3''
       = Inr (Some [''s1'', ''s2'', ''s3''])
   \<and> distinct [''s1'', ''s2'', ''s3'']
   \<and> card (fmdom' (path_ports_for_switches (build_switch_graph line3_links)
              [''s1'', ''s2'', ''s3''])) = 3"
  using shortest_switch_path_simple [OF line3_path]
  by (simp add: line3_path)

lemma rev_nth_neighbors:
  assumes "0 < i" and "Suc i < length p"
  shows "rev p ! (length p - Suc i) = p ! i"
    and "rev p ! (length p - Suc i - 1) = p ! Suc i"
    and "rev p ! (length p - Suc i + 1) = p ! (i - 1)"
  using assms by (simp_all add: rev_nth Suc_diff_Suc)

text \<open>
  Claim C5. For every graph (symmetric or not) and every computed switch path of length
  at least 3, at every interior hop the port pair resolved on the reversed path is the
  forward pair with the roles swapped: the reverse ingress is the forward egress (the
  port toward the successor) and the reverse egress is the forward ingress (the port
  toward the predecessor).
\<close>

theorem reverse_ports_swap_roles:
  assumes path: "shortest_switch_path g src_sw dst_sw = Inr (Some p)"
    and len: "3 \<le> length p" and i: "0 < i" "Suc i < length p"
  shows "\<exists>a b. fmlookup (path_ports_for_switches g p) (p ! i) = Some (a, b)
           \<and> fmlookup (path_ports_for_switches g (rev p)) (p ! i) = Some (b, a)
           \<and> a = port_toward (graph_get g (p ! i)) (p ! (i - 1))
           \<and> b = port_toward (graph_get g (p ! i)) (p ! (i + 1))"
proof -
  from shortest_switch_path_props [OF path] have d: "distinct p" by simp
  let ?j = "length p - Suc i"
  from i have j: "?j < length (rev p)" "0 < ?j" "Suc ?j < length (rev p)" by simp_all
  from d have dr: "distinct (rev p)" by simp
  have fwd: "fmlookup (path_ports_for_switches g p) (p ! i) = Some (hop_ports_at g p i)"
    using d i by (simp add: path_ports_lookup)
  have "fmlookup (path_ports_for_switches g (rev p)) (rev p ! ?j)
          = Some (hop_ports_at g (rev p) ?j)"
    using dr j(1) by (rule path_ports_lookup)
  then have bwd: "fmlookup (path_ports_for_switches g (rev p)) (p ! i)
          = Some (hop_ports_at g (rev p) ?j)"
    using rev_nth_neighbors(1) [OF i] by simp
  have f: "hop_ports_at g p i
      = (port_toward (graph_get g (p ! i)) (p ! (i - 1)),
         port_toward (graph_get g (p ! i)) (p ! (i + 1)))"
    using i by (simp add: hop_ports_at_def Let_def)
  have b: "hop_ports_at g (rev p) ?j
      = (port_toward (graph_get g (p ! i)) (p ! (i + 1)),
         port_toward (graph_get g (p ! i)) (p ! (i - 1)))"
    using j rev_nth_neighbors [OF i] by (simp add: hop_ports_at_def Let_def)
  from fwd bwd f b show ?thesis by simp
qed

theorem reverse_ports_swap_roles_witness:
  "fmlookup (path_ports_for_switches (build_switch_graph line3_links) [''s1'', ''s2'', ''s3''])
       ''s2'' = Some (Some 2, Some 3)
   \<and> fmlookup (path_ports_for_switches (build_switch_graph line3_links)
         (rev [''s1'', ''s2'', ''s3''])) ''s2'' = Some (Some 3, Some 2)"
  using reverse_ports_swap_roles [OF line3_path, of 1]
  by (simp add: line3_graph graph_get_def)

section \<open>Consistency of the resolved ports\<close>

text \<open>The first adjacency entry toward a neighbor: the one the resolver's loop stops at.\<close>

fun first_entry :: "entry list \<Rightarrow> string \<Rightarrow> entry option" where
  "first_entry [] nb = None"
| "first_entry ((nbr, src_p, dst_p) # es) nb =
     (if nbr = nb then Some (nbr, src_p, dst_p) else first_entry es nb)"

lemma port_toward_first_entry:
  "port_toward es nb = (case first_entry es nb of None \<Rightarrow> None | Some (_, p, _) \<Rightarrow> p)"
  by (induction es nb rule: first_entry.induct) auto

definition symmetric_graph :: "graph \<Rightarrow> bool" where
  "symmetric_graph g =
     (\<forall>A B p q. (B, p, q) \<in> set (graph_get g A) \<longrightarrow> (A, q, p) \<in> set (graph_get g B))"

text \<open>The port pairs of the entries of a list that name a given neighbor, in order.\<close>

definition between :: "entry list \<Rightarrow> string \<Rightarrow> (port \<times> port) list" where
  "between es nb = map snd (filter (\<lambda>e. fst e = nb) es)"

lemma first_entry_between:
  "first_entry es nb = (case between es nb of [] \<Rightarrow> None | (p, q) # _ \<Rightarrow> Some (nb, p, q))"
  by (induction es nb rule: first_entry.induct) (auto simp: between_def)

definition mirrored :: "graph \<Rightarrow> bool" where
  "mirrored g = (\<forall>u v. u \<noteq> v \<longrightarrow>
      between (graph_get g u) v = map prod.swap (between (graph_get g v) u))"

lemma mirrored_empty: "mirrored fmempty"
  by (simp add: mirrored_def graph_get_empty between_def)

lemma between_snoc:
  "between (es @ [e]) nb = between es nb @ (if fst e = nb then [snd e] else [])"
  by (simp add: between_def)

lemma mirrored_add_link:
  assumes "mirrored g"
  shows "mirrored (add_link g l)"
  unfolding mirrored_def
proof (intro allI impI)
  fix u v :: string
  assume ne: "u \<noteq> v"
  from assms
  have "u \<noteq> v \<longrightarrow> between (graph_get g u) v = map prod.swap (between (graph_get g v) u)"
    unfolding mirrored_def by (elim allE)
  with ne
  have m: "between (graph_get g u) v = map prod.swap (between (graph_get g v) u)"
    by blast
  show "between (graph_get (add_link g l) u) v
          = map prod.swap (between (graph_get (add_link g l) v) u)"
    using ne m by (auto simp: add_link_def graph_get_append between_snoc)
qed

lemma mirrored_foldl: "mirrored g \<Longrightarrow> mirrored (foldl add_link g ls)"
  by (induction ls arbitrary: g) (simp_all add: mirrored_add_link)

lemma mirrored_build: "mirrored (build_switch_graph links)"
  unfolding build_switch_graph_def by (rule mirrored_foldl) (rule mirrored_empty)

lemma mirrored_first_entry:
  assumes "mirrored g" and "u \<noteq> v" and "first_entry (graph_get g u) v = Some (v, a, b)"
  shows "first_entry (graph_get g v) u = Some (u, b, a)"
proof -
  from assms(1)
  have "u \<noteq> v \<longrightarrow> between (graph_get g u) v = map prod.swap (between (graph_get g v) u)"
    unfolding mirrored_def by (elim allE)
  with assms(2)
  have m: "between (graph_get g u) v = map prod.swap (between (graph_get g v) u)"
    by blast
  from assms(3) obtain r where "between (graph_get g u) v = (a, b) # r"
    by (auto simp: first_entry_between split: list.splits)
  with m obtain r' where "between (graph_get g v) u = (b, a) # r'"
    by (cases "between (graph_get g v) u") auto
  then show ?thesis by (simp add: first_entry_between)
qed

lemma first_entry_nbrs:
  "nb \<in> fst ` set es \<Longrightarrow> \<exists>p q. first_entry es nb = Some (nb, p, q)"
  by (induction es nb rule: first_entry.induct) auto

lemma walk_nth:
  "switch_walk g p \<Longrightarrow> Suc i < length p \<Longrightarrow> p ! Suc i \<in> nbrs g (p ! i)"
proof (induction g p arbitrary: i rule: switch_walk.induct)
  case (3 g x y r)
  then show ?case by (cases i) auto
qed simp_all

text \<open>
  Claim C4, as amended. For every graph built by \<^verbatim>\<open>build_switch_graph\<close> and every
  path computed over it, at every pair of consecutive hops \<open>u\<close>, \<open>v\<close> the egress port \<open>a\<close>
  resolved at \<open>u\<close> and the ingress port \<open>b\<close> resolved at \<open>v\<close> are the two ends of one
  link: the first adjacency entry of \<open>u\<close> toward \<open>v\<close> is \<open>(v, a, b)\<close> and the first adjacency
  entry of \<open>v\<close> toward \<open>u\<close> is \<open>(u, b, a)\<close>. So the ingress port of a hop is the neighbor
  port recorded by its predecessor toward it, and its egress port is the neighbor port
  recorded by its successor toward it.
\<close>

theorem path_ports_link_ends:
  assumes path: "shortest_switch_path (build_switch_graph links) src_sw dst_sw = Inr (Some p)"
    and i: "Suc i < length p"
  shows "\<exists>a b x y.
      first_entry (graph_get (build_switch_graph links) (p ! i)) (p ! Suc i)
        = Some (p ! Suc i, a, b)
    \<and> first_entry (graph_get (build_switch_graph links) (p ! Suc i)) (p ! i)
        = Some (p ! i, b, a)
    \<and> fmlookup (path_ports_for_switches (build_switch_graph links) p) (p ! i) = Some (x, a)
    \<and> fmlookup (path_ports_for_switches (build_switch_graph links) p) (p ! Suc i) = Some (b, y)"
proof -
  let ?g = "build_switch_graph links"
  from shortest_switch_path_props [OF path]
  have w: "switch_walk ?g p" and d: "distinct p" by (simp_all add: connects_def)
  from d i have ne: "p ! i \<noteq> p ! Suc i" by (simp add: nth_eq_iff_index_eq)
  from walk_nth [OF w i] have "p ! Suc i \<in> fst ` set (graph_get ?g (p ! i))"
    by (simp add: nbrs_def)
  from first_entry_nbrs [OF this] obtain a b where
    fe: "first_entry (graph_get ?g (p ! i)) (p ! Suc i) = Some (p ! Suc i, a, b)" by blast
  from mirrored_first_entry [OF mirrored_build ne fe]
  have fe': "first_entry (graph_get ?g (p ! Suc i)) (p ! i) = Some (p ! i, b, a)" .
  from d i have "fmlookup (path_ports_for_switches ?g p) (p ! i) = Some (hop_ports_at ?g p i)"
    by (simp add: path_ports_lookup)
  moreover from i fe have "snd (hop_ports_at ?g p i) = a"
    by (simp add: hop_ports_at_def Let_def port_toward_first_entry)
  ultimately have 1: "fmlookup (path_ports_for_switches ?g p) (p ! i)
      = Some (fst (hop_ports_at ?g p i), a)"
    by (metis prod.collapse)
  from d i have "fmlookup (path_ports_for_switches ?g p) (p ! Suc i)
      = Some (hop_ports_at ?g p (Suc i))"
    by (simp add: path_ports_lookup)
  moreover from fe' have "fst (hop_ports_at ?g p (Suc i)) = b"
    by (simp add: hop_ports_at_def Let_def port_toward_first_entry)
  ultimately have 2: "fmlookup (path_ports_for_switches ?g p) (p ! Suc i)
      = Some (b, snd (hop_ports_at ?g p (Suc i)))"
    by (metis prod.collapse)
  from fe fe' 1 2 show ?thesis by blast
qed

theorem path_ports_link_ends_witness:
  "first_entry (graph_get (build_switch_graph line3_links) ''s2'') ''s3''
     = Some (''s3'', Some 3, Some 2)
   \<and> first_entry (graph_get (build_switch_graph line3_links) ''s3'') ''s2''
     = Some (''s2'', Some 2, Some 3)
   \<and> fmlookup (path_ports_for_switches (build_switch_graph line3_links)
        [''s1'', ''s2'', ''s3'']) ''s2'' = Some (Some 2, Some 3)
   \<and> fmlookup (path_ports_for_switches (build_switch_graph line3_links)
        [''s1'', ''s2'', ''s3'']) ''s3'' = Some (Some 2, None)"
  using path_ports_link_ends [OF line3_path, of 1]
  by (simp add: line3_graph graph_get_def path_ports_for_switches_def hop_ports_at_def)

text \<open>
  A symmetric graph that is not the result of \<^verbatim>\<open>build_switch_graph\<close>: two parallel
  links between \<open>A\<close> and \<open>B\<close>, listed in opposite orders at the two ends.
\<close>

definition twisted_graph :: graph where
  "twisted_graph = fmap_of_list
     [(''A'', [(''B'', Some 1, Some 1), (''B'', Some 2, Some 2)]),
      (''B'', [(''A'', Some 2, Some 2), (''A'', Some 1, Some 1), (''C'', Some 3, Some 3)]),
      (''C'', [(''B'', Some 3, Some 3)])]"

lemma twisted_symmetric: "symmetric_graph twisted_graph"
  unfolding symmetric_graph_def twisted_graph_def graph_get_def
  by (auto split: if_splits)

lemma twisted_path:
  "shortest_switch_path twisted_graph ''A'' ''C'' = Inr (Some [''A'', ''B'', ''C''])"
  by (simp add: twisted_graph_def shortest_switch_path_def graph_get_def)

text \<open>
  Claim C4 as stated fails on a symmetric graph in general: on the path \<open>A, B, C\<close> of
  \<open>twisted_graph\<close> the interior hop \<open>B\<close> gets ingress port 2, while the entry by which
  its predecessor \<open>A\<close> resolves its egress toward \<open>B\<close> is \<open>(B, 1, 1)\<close>: egress port 1,
  neighbor port 1. The ingress port of \<open>B\<close> differs from both.
\<close>

theorem path_ports_self_consistent_counterexample:
  "symmetric_graph twisted_graph
   \<and> shortest_switch_path twisted_graph ''A'' ''C'' = Inr (Some [''A'', ''B'', ''C''])
   \<and> fmlookup (path_ports_for_switches twisted_graph [''A'', ''B'', ''C'']) ''B''
       = Some (Some 2, Some 3)
   \<and> fmlookup (path_ports_for_switches twisted_graph [''A'', ''B'', ''C'']) ''A''
       = Some (None, Some 1)
   \<and> first_entry (graph_get twisted_graph ''A'') ''B'' = Some (''B'', Some 1, Some 1)
   \<and> fst (hop_ports_at twisted_graph [''A'', ''B'', ''C''] 1)
       \<noteq> snd (hop_ports_at twisted_graph [''A'', ''B'', ''C''] 0)"
  by (simp add: twisted_symmetric twisted_path)
    (simp add: twisted_graph_def graph_get_def path_ports_for_switches_def hop_ports_at_def)

section \<open>Python values and strings\<close>

text \<open>
  A decoded JSON value. A float is a rational or one of the three special values that
  Python's decoder accepts. A dict is its list of items: \<open>map_of\<close> reads it.
  Strings are lists of characters with code points below 256. A decoded integer has at
  most 4300 digits: the decoder raises on a longer literal, and so does every
  conversion of a string to an integer, so \<^verbatim>\<open>str\<close> and \<^verbatim>\<open>format\<close> of the integers
  of a run never meet their own limit.
\<close>

datatype pyfloat = FloatVal rat | FloatNaN | FloatInf | FloatNegInf

datatype json =
    JNull
  | JBool bool
  | JInt int
  | JFloat pyfloat
  | JStr string
  | JList "json list"
  | JDict "(string \<times> json) list"

text \<open>Truth value of a Python object, as \<^verbatim>\<open>or\<close> and \<^verbatim>\<open>not\<close> test it.\<close>

fun truthy :: "json \<Rightarrow> bool" where
  "truthy JNull = False"
| "truthy (JBool b) = b"
| "truthy (JInt n) = (n \<noteq> 0)"
| "truthy (JFloat (FloatVal r)) = (r \<noteq> 0)"
| "truthy (JFloat _) = True"
| "truthy (JStr s) = (s \<noteq> [])"
| "truthy (JList xs) = (xs \<noteq> [])"
| "truthy (JDict kvs) = (kvs \<noteq> [])"

text \<open>\<^verbatim>\<open>d.get(k)\<close>: \<^verbatim>\<open>None\<close> for an absent key.\<close>

definition py_get :: "(string \<times> json) list \<Rightarrow> string \<Rightarrow> json" where
  "py_get d k = (case map_of d k of None \<Rightarrow> JNull | Some v \<Rightarrow> v)"

text \<open>\<^verbatim>\<open>d.get(k1) or d.get(k2) or ...\<close>: the first truthy value, else the last value.\<close>

fun or_chain :: "(string \<times> json) list \<Rightarrow> string list \<Rightarrow> json" where
  "or_chain d [] = JNull"
| "or_chain d [k] = py_get d k"
| "or_chain d (k # k' # ks) = (if truthy (py_get d k) then py_get d k else or_chain d (k' # ks))"

text \<open>Characters that \<^verbatim>\<open>str.strip()\<close> removes: those for which \<^verbatim>\<open>str.isspace\<close> holds.\<close>

definition py_isspace :: "char \<Rightarrow> bool" where
  "py_isspace c = (c \<in> {CHR 0x09, CHR 0x0A, CHR 0x0B, CHR 0x0C, CHR 0x0D, CHR 0x1C, CHR 0x1D,
     CHR 0x1E, CHR 0x1F, CHR 0x20, CHR 0x85, CHR 0xA0})"

definition strip :: "string \<Rightarrow> string" where
  "strip s = rev (dropWhile py_isspace (rev (dropWhile py_isspace s)))"

text \<open>
  Characters that \<^verbatim>\<open>int()\<close> removes around the literal. The separators
  \<^verbatim>\<open>0x1C\<close> to \<^verbatim>\<open>0x1F\<close> are not among them: \<^verbatim>\<open>int('\x1c7')\<close> raises.
\<close>

definition int_isspace :: "char \<Rightarrow> bool" where
  "int_isspace c = (c \<in> {CHR 0x09, CHR 0x0A, CHR 0x0B, CHR 0x0C, CHR 0x0D, CHR 0x20,
     CHR 0x85, CHR 0xA0})"

definition int_strip :: "string \<Rightarrow> string" where
  "int_strip s = rev (dropWhile int_isspace (rev (dropWhile int_isspace s)))"

text \<open>
  The interpreter's default limit on the digits of a decimal conversion
  (\<^verbatim>\<open>sys.int_max_str_digits\<close>): a literal with more digit characters raises.
\<close>

definition int_max_str_digits :: nat where
  "int_max_str_digits = 4300"

definition lstrip :: "char \<Rightarrow> string \<Rightarrow> string" where
  "lstrip c s = dropWhile (\<lambda>x. x = c) s"

definition rstrip :: "char \<Rightarrow> string \<Rightarrow> string" where
  "rstrip c s = rev (dropWhile (\<lambda>x. x = c) (rev s))"

definition endswith :: "string \<Rightarrow> string \<Rightarrow> bool" where
  "endswith s suffix = (length suffix \<le> length s \<and> drop (length s - length suffix) s = suffix)"

definition is_digit :: "char \<Rightarrow> bool" where
  "is_digit c = (c \<in> set ''0123456789'')"

definition digit_val :: "char \<Rightarrow> nat" where
  "digit_val c = of_char c - 48"

definition nat_of_digits :: "string \<Rightarrow> nat" where
  "nat_of_digits ds = foldl (\<lambda>n c. 10 * n + digit_val c) 0 ds"

text \<open>
  The digit part of an integer literal accepted by \<^verbatim>\<open>int(s)\<close>: decimal digits, with
  single underscores allowed between two digits.
\<close>

fun digits_ok :: "string \<Rightarrow> bool" where
  "digits_ok [] = False"
| "digits_ok [c] = is_digit c"
| "digits_ok (c # d # r) =
     (is_digit c \<and> (if d = CHR ''_'' then digits_ok r else digits_ok (d # r)))"

text \<open>
  \<^verbatim>\<open>int(s)\<close> on a string: surrounding whitespace, an optional sign, then the digits;
  \<open>None\<close> stands for \<^verbatim>\<open>ValueError\<close>, which is also raised when the literal has more
  digit characters (leading zeros counted, underscores not) than the limit.
\<close>

definition py_int_of_str :: "string \<Rightarrow> int option" where
  "py_int_of_str s =
     (let t = int_strip s;
          neg = (t \<noteq> [] \<and> hd t = CHR ''-'');
          body = (if t \<noteq> [] \<and> (hd t = CHR ''-'' \<or> hd t = CHR ''+'') then tl t else t)
      in if digits_ok body \<and> length (filter is_digit body) \<le> int_max_str_digits
         then Some ((if neg then - 1 else 1) * int (nat_of_digits (filter is_digit body)))
         else None)"

text \<open>Decimal and hexadecimal text of a natural number, as \<^verbatim>\<open>str\<close> and \<^verbatim>\<open>format\<close> print it.\<close>

fun dec_nat :: "nat \<Rightarrow> string" where
  "dec_nat n = (if n < 10 then [''0123456789'' ! n]
                else dec_nat (n div 10) @ [''0123456789'' ! (n mod 10)])"

fun hex_nat :: "nat \<Rightarrow> string" where
  "hex_nat n = (if n < 16 then [''0123456789abcdef'' ! n]
                else hex_nat (n div 16) @ [''0123456789abcdef'' ! (n mod 16)])"

declare dec_nat.simps [simp del] hex_nat.simps [simp del]

lemma dec_nat_numeral [simp]:
  "dec_nat (numeral k) =
     (if (numeral k :: nat) < 10 then [''0123456789'' ! numeral k]
      else dec_nat (numeral k div 10) @ [''0123456789'' ! (numeral k mod 10)])"
  by (rule dec_nat.simps)

lemma dec_nat_small [simp]: "dec_nat 0 = ''0''" "dec_nat 1 = ''1''" "dec_nat (Suc 0) = ''1''"
  by (simp_all add: dec_nat.simps)

lemma hex_nat_numeral [simp]:
  "hex_nat (numeral k) =
     (if (numeral k :: nat) < 16 then [''0123456789abcdef'' ! numeral k]
      else hex_nat (numeral k div 16) @ [''0123456789abcdef'' ! (numeral k mod 16)])"
  by (rule hex_nat.simps)

lemma hex_nat_small [simp]: "hex_nat 0 = ''0''" "hex_nat 1 = ''1''" "hex_nat (Suc 0) = ''1''"
  by (simp_all add: hex_nat.simps)

text \<open>\<^verbatim>\<open>str(n)\<close> of an integer.\<close>

definition str_int :: "int \<Rightarrow> string" where
  "str_int n = (if n < 0 then CHR ''-'' # dec_nat (nat (- n)) else dec_nat (nat n))"

text \<open>\<^verbatim>\<open>'{:02d}'.format(n)\<close> and \<^verbatim>\<open>'{:02x}'.format(n)\<close>: zero-padded to width 2, sign included.\<close>

definition fmt_02d :: "int \<Rightarrow> string" where
  "fmt_02d n = (if n < 0 then CHR ''-'' # dec_nat (nat (- n))
                else if n < 10 then CHR ''0'' # dec_nat (nat n) else dec_nat (nat n))"

definition fmt_02x :: "int \<Rightarrow> string" where
  "fmt_02x n = (if n < 0 then CHR ''-'' # hex_nat (nat (- n))
                else if n < 16 then CHR ''0'' # hex_nat (nat n) else hex_nat (nat n))"

text \<open>
  \<^verbatim>\<open>str(v)\<close>. The text of a finite float and the text between the brackets of a list
  or a dict are not modelled: the parameter \<open>repr\<close> supplies them.
\<close>

fun py_str :: "(json \<Rightarrow> string) \<Rightarrow> json \<Rightarrow> string" where
  "py_str repr JNull = ''None''"
| "py_str repr (JBool b) = (if b then ''True'' else ''False'')"
| "py_str repr (JInt n) = str_int n"
| "py_str repr (JFloat (FloatVal r)) = repr (JFloat (FloatVal r))"
| "py_str repr (JFloat FloatNaN) = ''nan''"
| "py_str repr (JFloat FloatInf) = ''inf''"
| "py_str repr (JFloat FloatNegInf) = ''-inf''"
| "py_str repr (JStr s) = s"
| "py_str repr (JList xs) = ''['' @ repr (JList xs) @ '']''"
| "py_str repr (JDict kvs) = ''{'' @ repr (JDict kvs) @ ''}''"

text \<open>\<^verbatim>\<open>int(v)\<close>: a float is truncated toward zero.\<close>

fun py_int :: "json \<Rightarrow> py_error + int" where
  "py_int JNull = Inl TypeError"
| "py_int (JBool b) = Inr (if b then 1 else 0)"
| "py_int (JInt n) = Inr n"
| "py_int (JFloat (FloatVal r)) = Inr (if r < 0 then - \<lfloor>- r\<rfloor> else \<lfloor>r\<rfloor>)"
| "py_int (JFloat FloatNaN) = Inl ValueError"
| "py_int (JFloat _) = Inl OverflowError"
| "py_int (JStr s) = (case py_int_of_str s of None \<Rightarrow> Inl ValueError | Some n \<Rightarrow> Inr n)"
| "py_int (JList xs) = Inl TypeError"
| "py_int (JDict kvs) = Inl TypeError"

lemma floor_rat_numeral [simp]:
  "\<lfloor>(numeral a :: rat) / numeral b\<rfloor> = numeral a div numeral b"
  by (metis floor_divide_of_int_eq of_int_numeral)

section \<open>Topology normalizer\<close>

definition src_keys :: "string list" where
  "src_keys = [''src'', ''src-switch'', ''srcSwitch'', ''source'', ''src_switch'',
     ''src_switch_dpid'']"

definition dst_keys :: "string list" where
  "dst_keys = [''dst'', ''dst-switch'', ''dstSwitch'', ''destination'', ''dst_switch'',
     ''dst_switch_dpid'']"

definition src_port_keys :: "string list" where
  "src_port_keys = [''src-port'', ''src_port'', ''srcPort'', ''port1'', ''srcPortNumber'']"

definition dst_port_keys :: "string list" where
  "dst_port_keys = [''dst-port'', ''dst_port'', ''dstPort'', ''port2'', ''dstPortNumber'']"

definition nested_keys :: "string list" where
  "nested_keys = [''switchDPID'', ''dpid'', ''id'']"

text \<open>
  The local function \<^verbatim>\<open>get_port(e, *keys)\<close>: the first key whose value is not
  \<^verbatim>\<open>None\<close> and converts with \<^verbatim>\<open>int(v)\<close> or \<^verbatim>\<open>int(str(v))\<close>; a value that
  converts with neither is passed over.
\<close>

fun get_port :: "(json \<Rightarrow> string) \<Rightarrow> (string \<times> json) list \<Rightarrow> string list \<Rightarrow> port" where
  "get_port repr e [] = None"
| "get_port repr e (k # keys) =
     (if py_get e k = JNull then get_port repr e keys
      else (case py_int (py_get e k) of
              Inr n \<Rightarrow> Some n
            | Inl _ \<Rightarrow> (case py_int (JStr (py_str repr (py_get e k))) of
                          Inr n \<Rightarrow> Some n
                        | Inl _ \<Rightarrow> get_port repr e keys)))"

text \<open>\<^verbatim>\<open>if isinstance(src, dict): src = src.get('switchDPID') or ...\<close>\<close>

definition unnest :: "json \<Rightarrow> json" where
  "unnest v = (case v of JDict d \<Rightarrow> or_chain d nested_keys | _ \<Rightarrow> v)"

text \<open>
  Lines 89 to 132 for an entry that is a dict: \<open>None\<close> when the entry is skipped for a
  missing switch, otherwise the dict that is appended to \<^verbatim>\<open>normalized\<close>. The two
  prints of the skip write ASCII text only (\<^verbatim>\<open>json.dumps\<close> escapes the rest).
\<close>

definition link_of_dict :: "(json \<Rightarrow> string) \<Rightarrow> (string \<times> json) list \<Rightarrow> link option" where
  "link_of_dict repr e =
     (let src_v = unnest (or_chain e src_keys);
          dst_v = unnest (or_chain e dst_keys)
      in if \<not> truthy src_v \<or> \<not> truthy dst_v then None
         else Some \<lparr>src = py_str repr src_v,
                    src_port = get_port repr e src_port_keys,
                    dst = py_str repr dst_v,
                    dst_port = get_port repr e dst_port_keys\<rparr>)"

text \<open>
  The body of the loop over \<^verbatim>\<open>raw_links\<close>. An entry that is not a dict is printed
  as it is, \<^verbatim>\<open>print("DEBUG: skipping non-dict topology entry:", entry)\<close>, and then
  skipped. The print writes \<^verbatim>\<open>str(entry)\<close> to the standard output and raises
  \<^verbatim>\<open>UnicodeEncodeError\<close> when the encoding of the stream has no code for one of its
  characters; \<open>enc\<close> tells which texts the stream encodes.
\<close>

definition normalize_entry ::
  "(json \<Rightarrow> string) \<Rightarrow> (string \<Rightarrow> bool) \<Rightarrow> json \<Rightarrow> py_error + link option" where
  "normalize_entry repr enc entry =
     (case entry of
        JDict e \<Rightarrow> Inr (link_of_dict repr e)
      | _ \<Rightarrow> (if enc (py_str repr entry) then Inr None else Inl UnicodeEncodeError))"

text \<open>The loop: it ends with the first exception, otherwise with the links appended.\<close>

fun normalize_loop ::
  "(json \<Rightarrow> string) \<Rightarrow> (string \<Rightarrow> bool) \<Rightarrow> json list \<Rightarrow> link list
     \<Rightarrow> py_error + link list" where
  "normalize_loop repr enc [] normalized = Inr normalized"
| "normalize_loop repr enc (entry # rest) normalized =
     (case normalize_entry repr enc entry of
        Inl err \<Rightarrow> Inl err
      | Inr None \<Rightarrow> normalize_loop repr enc rest normalized
      | Inr (Some l) \<Rightarrow> normalize_loop repr enc rest (normalized @ [l]))"

text \<open>
  \<^verbatim>\<open>get_topology_links\<close>. Its last argument is the outcome of the request
  (\<^verbatim>\<open>requests.get\<close>, \<^verbatim>\<open>raise_for_status\<close>, \<^verbatim>\<open>r.json()\<close>): an exception or the
  decoded payload. The prints for a payload that is not a list write ASCII text only.
\<close>

definition get_topology_links ::
  "(json \<Rightarrow> string) \<Rightarrow> (string \<Rightarrow> bool) \<Rightarrow> py_error + json \<Rightarrow> py_error + link list" where
  "get_topology_links repr enc reply =
     (case reply of
        Inl err \<Rightarrow> Inl err
      | Inr raw \<Rightarrow>
          (let raw_links =
                 (case raw of
                    JDict d \<Rightarrow> (case map_of d ''links'' of Some v \<Rightarrow> v | None \<Rightarrow> raw)
                  | _ \<Rightarrow> raw)
           in case raw_links of
                JList entries \<Rightarrow> normalize_loop repr enc entries []
              | _ \<Rightarrow> Inr []))"

section \<open>Flow installer\<close>

text \<open>
  The request that \<^verbatim>\<open>push_flow\<close> posts: the URL and the \<^verbatim>\<open>flow\<close> dict, whose keys
  and values are strings, in insertion order.
\<close>

record request =
  url :: string
  flow :: "(string \<times> string) list"

definition push_flow ::
  "string \<Rightarrow> string \<Rightarrow> string \<Rightarrow> port \<Rightarrow> port \<Rightarrow> int \<Rightarrow> request" where
  "push_flow floodlight_url switch_dpid flow_name in_port out_port priority =
     \<lparr>url = rstrip CHR ''/'' floodlight_url @ ''/wm/staticflowpusher/json'',
      flow = [(''switch'', switch_dpid), (''name'', flow_name), (''cookie'', ''0''),
              (''priority'', str_int priority), (''active'', ''true'')]
             @ (case in_port of None \<Rightarrow> [] | Some p \<Rightarrow> [(''in_port'', str_int p)])
             @ [(''actions'',
                 ''output='' @ (case out_port of None \<Rightarrow> ''None'' | Some p \<Rightarrow> str_int p))]\<rparr>"

section \<open>Properties of the normalizer\<close>

text \<open>The claim's words: a bare list, or an object wrapping a list under \<^verbatim>\<open>links\<close>.\<close>

fun payload_entries :: "json \<Rightarrow> json list option" where
  "payload_entries (JList es) = Some es"
| "payload_entries (JDict d) =
     (case map_of d ''links'' of Some (JList es) \<Rightarrow> Some es | _ \<Rightarrow> None)"
| "payload_entries _ = None"

lemma get_topology_links_shape:
  "get_topology_links repr enc (Inr raw) =
     (case payload_entries raw of None \<Rightarrow> Inr []
      | Some es \<Rightarrow> normalize_loop repr enc es [])"
  by (cases raw) (auto simp: get_topology_links_def split: option.splits json.splits)

text \<open>What one entry contributes when its print, if any, succeeds.\<close>

definition entry_links :: "(json \<Rightarrow> string) \<Rightarrow> json \<Rightarrow> link list" where
  "entry_links repr entry =
     (case entry of
        JDict e \<Rightarrow> (case link_of_dict repr e of None \<Rightarrow> [] | Some l \<Rightarrow> [l])
      | _ \<Rightarrow> [])"

definition printable_entry :: "(json \<Rightarrow> string) \<Rightarrow> (string \<Rightarrow> bool) \<Rightarrow> json \<Rightarrow> bool" where
  "printable_entry repr enc entry =
     (case entry of JDict e \<Rightarrow> True | _ \<Rightarrow> enc (py_str repr entry))"

lemma normalize_entry_printable:
  "printable_entry repr enc entry \<Longrightarrow>
     normalize_entry repr enc entry
       = Inr (case entry_links repr entry of [] \<Rightarrow> None | l # _ \<Rightarrow> Some l)"
  by (cases entry)
    (auto simp: normalize_entry_def printable_entry_def entry_links_def split: option.splits)

lemma normalize_loop_printable:
  "list_all (printable_entry repr enc) es \<Longrightarrow>
     normalize_loop repr enc es acc = Inr (acc @ concat (map (entry_links repr) es))"
proof (induction es arbitrary: acc)
  case Nil
  then show ?case by simp
next
  case (Cons entry es)
  then have p: "printable_entry repr enc entry" and rest: "list_all (printable_entry repr enc) es"
    by simp_all
  show ?case
  proof (cases "entry_links repr entry")
    case Nil
    with normalize_entry_printable [OF p] Cons.IH [OF rest] show ?thesis by simp
  next
    case (Cons l ls)
    then have "entry_links repr entry = [l]"
      by (cases entry) (auto simp: entry_links_def split: option.splits)
    with normalize_entry_printable [OF p] Cons.IH [OF rest] show ?thesis by simp
  qed
qed

lemma normalize_loop_unprintable:
  assumes "list_all (printable_entry repr enc) pre" and "\<not> printable_entry repr enc entry"
  shows "normalize_loop repr enc (pre @ entry # post) acc = Inl UnicodeEncodeError"
  using assms(1)
proof (induction pre arbitrary: acc)
  case Nil
  from assms(2) show ?case
    by (cases entry) (simp_all add: normalize_entry_def printable_entry_def)
next
  case (Cons x pre)
  then have p: "printable_entry repr enc x" and rest: "list_all (printable_entry repr enc) pre"
    by simp_all
  from normalize_entry_printable [OF p] Cons.IH [OF rest] show ?case
    by (simp split: list.splits)
qed

text \<open>
  When the standard output encodes every entry that is printed, the normalizer behaves
  as the specification says: it returns a list; a payload that is neither a list nor an
  object wrapping a list under \<^verbatim>\<open>links\<close> gives the empty list; every entry contributes on
  its own, in order; an entry whose switch identifiers resolve to non-empty strings
  contributes a link carrying exactly those strings.
\<close>

lemma get_topology_links_printable:
  "(payload_entries raw = None \<longrightarrow> get_topology_links repr enc (Inr raw) = Inr [])
   \<and> (payload_entries raw = Some es \<and> list_all (printable_entry repr enc) es \<longrightarrow>
        get_topology_links repr enc (Inr raw) = Inr (concat (map (entry_links repr) es)))
   \<and> ((\<forall>d. entry \<noteq> JDict d) \<longrightarrow> entry_links repr entry = [])
   \<and> (\<not> truthy (unnest (or_chain e src_keys)) \<or> \<not> truthy (unnest (or_chain e dst_keys))
        \<longrightarrow> entry_links repr (JDict e) = [])
   \<and> (unnest (or_chain e src_keys) = JStr s \<and> s \<noteq> []
        \<and> unnest (or_chain e dst_keys) = JStr t \<and> t \<noteq> [] \<longrightarrow>
        entry_links repr (JDict e)
          = [\<lparr>src = s, src_port = get_port repr e src_port_keys,
              dst = t, dst_port = get_port repr e dst_port_keys\<rparr>])"
proof (intro conjI impI)
  show "get_topology_links repr enc (Inr raw) = Inr []" if "payload_entries raw = None"
    using that by (simp add: get_topology_links_shape)
  show "get_topology_links repr enc (Inr raw) = Inr (concat (map (entry_links repr) es))"
    if "payload_entries raw = Some es \<and> list_all (printable_entry repr enc) es"
    using that by (simp add: get_topology_links_shape normalize_loop_printable)
  show "entry_links repr entry = []" if "\<forall>d. entry \<noteq> JDict d"
    using that by (cases entry) (simp_all add: entry_links_def)
  show "entry_links repr (JDict e) = []"
    if "\<not> truthy (unnest (or_chain e src_keys)) \<or> \<not> truthy (unnest (or_chain e dst_keys))"
    using that by (auto simp: entry_links_def link_of_dict_def Let_def)
  show "entry_links repr (JDict e)
          = [\<lparr>src = s, src_port = get_port repr e src_port_keys,
              dst = t, dst_port = get_port repr e dst_port_keys\<rparr>]"
    if "unnest (or_chain e src_keys) = JStr s \<and> s \<noteq> []
        \<and> unnest (or_chain e dst_keys) = JStr t \<and> t \<noteq> []"
    using that by (simp add: entry_links_def link_of_dict_def Let_def)
qed

lemmas normalize_defs = get_topology_links_def normalize_entry_def link_of_dict_def unnest_def
  py_get_def src_keys_def dst_keys_def nested_keys_def src_port_keys_def dst_port_keys_def

lemmas int_parse_defs = py_int_of_str_def int_strip_def int_isspace_def int_max_str_digits_def
  is_digit_def nat_of_digits_def digit_val_def lstrip_def

definition sample_payload :: json where
  "sample_payload = JDict [(''links'', JList
     [JStr ''junk'',
      JDict [(''src-switch'', JStr ''00:00:00:00:00:00:00:01''), (''src-port'', JInt 2),
             (''dst-switch'', JStr ''00:00:00:00:00:00:00:02''), (''dst-port'', JStr ''x'')],
      JDict [(''src-switch'', JStr ''00:00:00:00:00:00:00:02'')],
      JDict [(''src'', JDict [(''dpid'', JStr ''s2'')]), (''dst'', JStr ''s3''),
             (''port1'', JStr '' 3 ''), (''dst_port'', JFloat (FloatVal (5 / 2)))]])]"

lemma sample_payload_links:
  "get_topology_links (\<lambda>_. []) (\<lambda>_. True) (Inr sample_payload) = Inr
     [\<lparr>src = ''00:00:00:00:00:00:00:01'', src_port = Some 2,
       dst = ''00:00:00:00:00:00:00:02'', dst_port = None\<rparr>,
      \<lparr>src = ''s2'', src_port = Some 3, dst = ''s3'', dst_port = Some 2\<rparr>]"
  by (simp add: sample_payload_def normalize_defs int_parse_defs)

text \<open>A standard output whose encoding is ASCII: it encodes the characters below 128.\<close>

definition ascii_stdout :: "string \<Rightarrow> bool" where
  "ascii_stdout s = list_all (\<lambda>c. \<not> digit7 c) s"

text \<open>
  A payload with one entry that is not a dict, the string of the single character
  \<^verbatim>\<open>0xE9\<close>, followed by a well-formed link record.
\<close>

definition unprintable_payload :: json where
  "unprintable_payload = JList
     [JStr [CHR 0xE9],
      JDict [(''src-switch'', JStr ''00:00:00:00:00:00:00:01''), (''src-port'', JInt 2),
             (''dst-switch'', JStr ''00:00:00:00:00:00:00:02''), (''dst-port'', JInt 2)]]"

text \<open>
  Claim C7 against the code. The claim says that normalization never raises and that a
  non-dict entry is dropped while the well-formed records of the batch still yield
  their links. The code prints a non-dict entry as it is before skipping it (line 85),
  and the print raises when the standard output cannot encode the entry: on this
  payload and an ASCII standard output the function raises \<^verbatim>\<open>UnicodeEncodeError\<close> and
  returns no link, although on a standard output that encodes the entry it returns the
  link of the second record. The sibling skip of a malformed dict (line 122) prints
  \<^verbatim>\<open>json.dumps(entry)\<close>, which is ASCII and cannot raise. A string with a code point
  above 255 is outside this model; a lone surrogate, which no UTF-8 stream encodes,
  meets the same print.
\<close>

theorem get_topology_links_raises_on_unprintable_entry:
  "get_topology_links (\<lambda>_. []) ascii_stdout (Inr unprintable_payload) = Inl UnicodeEncodeError
   \<and> get_topology_links (\<lambda>_. []) (\<lambda>_. True) (Inr unprintable_payload)
       = Inr [\<lparr>src = ''00:00:00:00:00:00:00:01'', src_port = Some 2,
                dst = ''00:00:00:00:00:00:00:02'', dst_port = Some 2\<rparr>]"
  by (simp add: unprintable_payload_def ascii_stdout_def normalize_defs)

section \<open>Unknown ports\<close>

text \<open>Values that neither \<^verbatim>\<open>int(v)\<close> nor \<^verbatim>\<open>int(str(v))\<close> converts.\<close>

fun unparseable :: "json \<Rightarrow> bool" where
  "unparseable (JStr s) = (py_int_of_str s = None)"
| "unparseable (JList xs) = True"
| "unparseable (JDict kvs) = True"
| "unparseable (JFloat (FloatVal r)) = False"
| "unparseable (JFloat _) = True"
| "unparseable _ = False"

lemma dropWhile_snoc_keep: "\<not> P c \<Longrightarrow> \<exists>ys. dropWhile P (xs @ [c]) = ys @ [c]"
  by (induction xs) auto

lemma int_strip_keeps_head:
  assumes "\<not> int_isspace c"
  shows "\<exists>r. int_strip (c # s) = c # r"
proof -
  from assms have "dropWhile int_isspace (c # s) = c # s" by simp
  moreover from assms dropWhile_snoc_keep [where P = int_isspace and c = c and xs = "rev s"]
  obtain ys where "dropWhile int_isspace (rev s @ [c]) = ys @ [c]" by blast
  ultimately show ?thesis by (simp add: int_strip_def)
qed

lemma py_int_of_str_bad_head:
  assumes "\<not> int_isspace c" and "c \<noteq> CHR ''-''" and "c \<noteq> CHR ''+''" and "\<not> is_digit c"
  shows "py_int_of_str (c # s) = None"
proof -
  from int_strip_keeps_head [OF assms(1), of s] obtain r where r: "int_strip (c # s) = c # r"
    by blast
  from assms(4) have "\<not> digits_ok (c # r)" by (cases r) simp_all
  with r assms(2,3) show ?thesis by (simp add: py_int_of_str_def)
qed

lemma py_int_of_str_words:
  "py_int_of_str ''nan'' = None" "py_int_of_str ''inf'' = None" "py_int_of_str ''-inf'' = None"
  by (simp_all add: py_int_of_str_def int_strip_def int_isspace_def is_digit_def)

lemma unparseable_int: "unparseable v \<Longrightarrow> \<exists>err. py_int v = Inl err"
  by (induction v rule: unparseable.induct) simp_all

lemma unparseable_int_str:
  "unparseable v \<Longrightarrow> \<exists>err. py_int (JStr (py_str repr v)) = Inl err"
proof (induction v rule: unparseable.induct)
  case (2 xs)
  have "py_int_of_str (CHR ''['' # repr (JList xs) @ '']'') = None"
    by (rule py_int_of_str_bad_head) (simp_all add: int_isspace_def is_digit_def)
  then show ?case by simp
next
  case (3 kvs)
  have "py_int_of_str (CHR ''{'' # repr (JDict kvs) @ ''}'') = None"
    by (rule py_int_of_str_bad_head) (simp_all add: int_isspace_def is_digit_def)
  then show ?case by simp
qed (simp_all add: py_int_of_str_words)

lemma get_port_unknown:
  "(\<forall>k\<in>set keys. py_get e k = JNull \<or> unparseable (py_get e k))
     \<Longrightarrow> get_port repr e keys = None"
proof (induction keys)
  case Nil
  then show ?case by simp
next
  case (Cons k keys)
  then have rest: "get_port repr e keys = None" by simp
  from Cons.prems consider "py_get e k = JNull" | "unparseable (py_get e k)" by auto
  then show ?case
  proof cases
    case 1
    with rest show ?thesis by simp
  next
    case 2
    from unparseable_int [OF 2] unparseable_int_str [OF 2, of repr] rest
    show ?thesis by auto
  qed
qed

lemma set_graph_get_add_link:
  "set (graph_get (add_link g l) A) = set (graph_get g A)
     \<union> (if src l \<noteq> [] \<and> dst l \<noteq> [] \<and> src l = A
         then {(dst l, src_port l, dst_port l)} else {})
     \<union> (if src l \<noteq> [] \<and> dst l \<noteq> [] \<and> dst l = A
         then {(src l, dst_port l, src_port l)} else {})"
  by (auto simp: add_link_def graph_get_append)

lemma set_graph_get_foldl:
  "set (graph_get (foldl add_link g ls) A) = set (graph_get g A)
     \<union> set (map (\<lambda>l. (dst l, src_port l, dst_port l))
          (filter (\<lambda>l. src l \<noteq> [] \<and> dst l \<noteq> [] \<and> src l = A) ls))
     \<union> set (map (\<lambda>l. (src l, dst_port l, src_port l))
          (filter (\<lambda>l. src l \<noteq> [] \<and> dst l \<noteq> [] \<and> dst l = A) ls))"
proof (induction ls arbitrary: g)
  case Nil
  then show ?case by simp
next
  case (Cons l ls)
  show ?case
    unfolding foldl_Cons Cons.IH [of "add_link g l"] set_graph_get_add_link
    by (simp split: if_splits) blast
qed

lemma set_graph_get_build:
  "set (graph_get (build_switch_graph ls) A) =
     set (map (\<lambda>l. (dst l, src_port l, dst_port l))
          (filter (\<lambda>l. src l \<noteq> [] \<and> dst l \<noteq> [] \<and> src l = A) ls))
     \<union> set (map (\<lambda>l. (src l, dst_port l, src_port l))
          (filter (\<lambda>l. src l \<noteq> [] \<and> dst l \<noteq> [] \<and> dst l = A) ls))"
  unfolding build_switch_graph_def set_graph_get_foldl by (simp add: graph_get_empty)

lemma port_toward_first:
  "nb \<notin> fst ` set pre \<Longrightarrow> port_toward (pre @ (nb, sp, dp) # post) nb = sp"
  by (induction pre) auto

lemma port_toward_absent: "nb \<notin> fst ` set es \<Longrightarrow> port_toward es nb = None"
  by (induction es) auto

lemma path_ports_egress:
  assumes "distinct p" and "Suc i < length p"
  shows "\<exists>x. fmlookup (path_ports_for_switches g p) (p ! i)
           = Some (x, port_toward (graph_get g (p ! i)) (p ! Suc i))"
proof -
  from assms have "fmlookup (path_ports_for_switches g p) (p ! i) = Some (hop_ports_at g p i)"
    by (simp add: path_ports_lookup)
  moreover from assms(2)
  have "snd (hop_ports_at g p i) = port_toward (graph_get g (p ! i)) (p ! Suc i)"
    by (simp add: hop_ports_at_def Let_def)
  ultimately show ?thesis by (metis prod.collapse)
qed

lemma path_ports_ingress:
  assumes "distinct p" and "Suc i < length p"
  shows "\<exists>y. fmlookup (path_ports_for_switches g p) (p ! Suc i)
           = Some (port_toward (graph_get g (p ! Suc i)) (p ! i), y)"
proof -
  from assms
  have "fmlookup (path_ports_for_switches g p) (p ! Suc i) = Some (hop_ports_at g p (Suc i))"
    by (simp add: path_ports_lookup)
  moreover have "fst (hop_ports_at g p (Suc i)) = port_toward (graph_get g (p ! Suc i)) (p ! i)"
    by (simp add: hop_ports_at_def Let_def)
  ultimately show ?thesis by (metis prod.collapse)
qed

text \<open>
  Claim C8. An unknown port stays unknown. (1) When every alias key of a link record is
  absent or holds a value that does not convert to an integer, \<^verbatim>\<open>get_port\<close> gives
  \<^verbatim>\<open>None\<close>, and a record that is kept carries the two results of \<^verbatim>\<open>get_port\<close> as
  its ports. (2) The adjacency entries of the built graph are exactly the links' own
  port values, in both directions. (3) On a path without repeated switch,
  \<^verbatim>\<open>path_ports_for_switches\<close> gives a hop, as egress port, the local port \<open>sp\<close> of
  the first adjacency entry that names its successor, and gives the next hop, as
  ingress port, the local port of its first adjacency entry that names the hop: the
  value of the entry as it stands, \<^verbatim>\<open>None\<close> included; with no entry naming the
  successor the egress port is \<^verbatim>\<open>None\<close>. (4) \<^verbatim>\<open>push_flow\<close> with
  \<^verbatim>\<open>in_port = None\<close> emits a rule with no \<^verbatim>\<open>in_port\<close> field, and with a known port
  emits that port.
\<close>

theorem unknown_port_propagates:
  "((\<forall>k\<in>set keys. py_get e k = JNull \<or> unparseable (py_get e k))
       \<longrightarrow> get_port repr e keys = None)
   \<and> (link_of_dict repr e = Some l
        \<longrightarrow> src_port l = get_port repr e src_port_keys
          \<and> dst_port l = get_port repr e dst_port_keys)
   \<and> set (graph_get (build_switch_graph ls) A) =
       set (map (\<lambda>l. (dst l, src_port l, dst_port l))
            (filter (\<lambda>l. src l \<noteq> [] \<and> dst l \<noteq> [] \<and> src l = A) ls))
       \<union> set (map (\<lambda>l. (src l, dst_port l, src_port l))
            (filter (\<lambda>l. src l \<noteq> [] \<and> dst l \<noteq> [] \<and> dst l = A) ls))
   \<and> (distinct p \<and> Suc i < length p
        \<and> graph_get g (p ! i) = pre @ (p ! Suc i, sp, dp) # post
        \<and> p ! Suc i \<notin> fst ` set pre
        \<longrightarrow> (\<exists>x. fmlookup (path_ports_for_switches g p) (p ! i) = Some (x, sp)))
   \<and> (distinct p \<and> Suc i < length p
        \<and> graph_get g (p ! Suc i) = pre @ (p ! i, sp, dp) # post
        \<and> p ! i \<notin> fst ` set pre
        \<longrightarrow> (\<exists>y. fmlookup (path_ports_for_switches g p) (p ! Suc i) = Some (sp, y)))
   \<and> (distinct p \<and> Suc i < length p
        \<and> p ! Suc i \<notin> fst ` set (graph_get g (p ! i))
        \<longrightarrow> (\<exists>x. fmlookup (path_ports_for_switches g p) (p ! i) = Some (x, None)))
   \<and> map_of (flow (push_flow fl sw name None out_port prio)) ''in_port'' = None
   \<and> map_of (flow (push_flow fl sw name (Some n) out_port prio)) ''in_port'' = Some (str_int n)"
proof (intro conjI impI)
  show "get_port repr e keys = None"
    if "\<forall>k\<in>set keys. py_get e k = JNull \<or> unparseable (py_get e k)"
    using that by (rule get_port_unknown)
  show "src_port l = get_port repr e src_port_keys" if "link_of_dict repr e = Some l"
    using that by (auto simp: link_of_dict_def Let_def split: if_splits)
  show "dst_port l = get_port repr e dst_port_keys" if "link_of_dict repr e = Some l"
    using that by (auto simp: link_of_dict_def Let_def split: if_splits)
  show "set (graph_get (build_switch_graph ls) A) =
       set (map (\<lambda>l. (dst l, src_port l, dst_port l))
            (filter (\<lambda>l. src l \<noteq> [] \<and> dst l \<noteq> [] \<and> src l = A) ls))
       \<union> set (map (\<lambda>l. (src l, dst_port l, src_port l))
            (filter (\<lambda>l. src l \<noteq> [] \<and> dst l \<noteq> [] \<and> dst l = A) ls))"
    by (rule set_graph_get_build)
  show "\<exists>x. fmlookup (path_ports_for_switches g p) (p ! i) = Some (x, sp)"
    if "distinct p \<and> Suc i < length p
        \<and> graph_get g (p ! i) = pre @ (p ! Suc i, sp, dp) # post
        \<and> p ! Suc i \<notin> fst ` set pre"
    using that path_ports_egress [of p i g] by (simp add: port_toward_first)
  show "\<exists>y. fmlookup (path_ports_for_switches g p) (p ! Suc i) = Some (sp, y)"
    if "distinct p \<and> Suc i < length p
        \<and> graph_get g (p ! Suc i) = pre @ (p ! i, sp, dp) # post
        \<and> p ! i \<notin> fst ` set pre"
    using that path_ports_ingress [of p i g] by (simp add: port_toward_first)
  show "\<exists>x. fmlookup (path_ports_for_switches g p) (p ! i) = Some (x, None)"
    if "distinct p \<and> Suc i < length p \<and> p ! Suc i \<notin> fst ` set (graph_get g (p ! i))"
    using that path_ports_egress [of p i g] by (simp add: port_toward_absent)
  show "map_of (flow (push_flow fl sw name None out_port prio)) ''in_port'' = None"
    by (simp add: push_flow_def)
  show "map_of (flow (push_flow fl sw name (Some n) out_port prio)) ''in_port''
          = Some (str_int n)"
    by (simp add: push_flow_def)
qed

definition unknown_port_record :: "(string \<times> json) list" where
  "unknown_port_record =
     [(''src-switch'', JStr ''s1''), (''dst-switch'', JStr ''s2''),
      (''src-port'', JStr ''abc''), (''src_port'', JStr [CHR 0x1C, CHR ''7'']),
      (''port1'', JList [JInt 1]), (''dst-port'', JInt 2)]"

definition unknown_port_links :: "link list" where
  "unknown_port_links = [\<lparr>src = ''s1'', src_port = None, dst = ''s2'', dst_port = Some 2\<rparr>]"

lemma unknown_port_graph:
  "graph_get (build_switch_graph unknown_port_links) ''s1'' = [(''s2'', None, Some 2)]"
  "graph_get (build_switch_graph unknown_port_links) ''s2'' = [(''s1'', Some 2, None)]"
  "graph_get fmempty sw = []"
  by (simp_all add: unknown_port_links_def build_switch_graph_def add_link_def
      graph_append_def graph_get_def)

theorem unknown_port_propagates_witness:
  "get_port (\<lambda>_. []) unknown_port_record src_port_keys = None
   \<and> link_of_dict (\<lambda>_. []) unknown_port_record
       = Some \<lparr>src = ''s1'', src_port = None, dst = ''s2'', dst_port = Some 2\<rparr>
   \<and> graph_get (build_switch_graph unknown_port_links) ''s1'' = [(''s2'', None, Some 2)]
   \<and> fmlookup (path_ports_for_switches (build_switch_graph unknown_port_links)
         [''s1'', ''s2'']) ''s1'' = Some (None, None)
   \<and> fmlookup (path_ports_for_switches (build_switch_graph unknown_port_links)
         [''s1'', ''s2'']) ''s2'' = Some (Some 2, None)
   \<and> fmlookup (path_ports_for_switches fmempty [''s1'', ''s2'']) ''s1'' = Some (None, None)
   \<and> flow (push_flow ''http://127.0.0.1:8080'' ''s1'' ''fwd'' None (Some 2) 32768)
       = [(''switch'', ''s1''), (''name'', ''fwd''), (''cookie'', ''0''),
          (''priority'', ''32768''), (''active'', ''true''), (''actions'', ''output=2'')]"
proof -
  have a: "get_port (\<lambda>_. []) unknown_port_record src_port_keys = None
     \<and> link_of_dict (\<lambda>_. []) unknown_port_record
         = Some \<lparr>src = ''s1'', src_port = None, dst = ''s2'', dst_port = Some 2\<rparr>"
    using unknown_port_propagates [where keys = src_port_keys and e = unknown_port_record
        and l = "\<lparr>src = ''s1'', src_port = None, dst = ''s2'', dst_port = Some 2\<rparr>"
        and repr = "\<lambda>_. []"]
    by (simp add: unknown_port_record_def normalize_defs int_parse_defs)
  have b: "fmlookup (path_ports_for_switches (build_switch_graph unknown_port_links)
         [''s1'', ''s2'']) ''s1'' = Some (None, None)"
    using unknown_port_propagates [where g = "build_switch_graph unknown_port_links"
        and p = "[''s1'', ''s2'']" and i = 0
        and pre = "[]" and sp = None and dp = "Some 2" and post = "[]"]
    by (simp add: unknown_port_graph path_ports_for_switches_def hop_ports_at_def)
  have c: "fmlookup (path_ports_for_switches (build_switch_graph unknown_port_links)
         [''s1'', ''s2'']) ''s2'' = Some (Some 2, None)"
    using unknown_port_propagates [where g = "build_switch_graph unknown_port_links"
        and p = "[''s1'', ''s2'']" and i = 0
        and pre = "[]" and sp = "Some 2" and dp = None and post = "[]"]
    by (simp add: unknown_port_graph path_ports_for_switches_def hop_ports_at_def)
  have d: "fmlookup (path_ports_for_switches fmempty [''s1'', ''s2'']) ''s1''
       = Some (None, None)"
    using unknown_port_propagates [where g = fmempty and p = "[''s1'', ''s2'']" and i = 0]
    by (simp add: unknown_port_graph path_ports_for_switches_def hop_ports_at_def)
  have e: "flow (push_flow ''http://127.0.0.1:8080'' ''s1'' ''fwd'' None (Some 2) 32768)
       = [(''switch'', ''s1''), (''name'', ''fwd''), (''cookie'', ''0''),
          (''priority'', ''32768''), (''active'', ''true''), (''actions'', ''output=2'')]"
    using unknown_port_propagates [where fl = "''http://127.0.0.1:8080''" and sw = "''s1''"
        and name = "''fwd''" and out_port = "Some 2" and prio = 32768 and n = 0]
    by (simp add: push_flow_def str_int_def)
  from a b c d e show ?thesis by (simp add: unknown_port_graph)
qed

section \<open>Device locator\<close>

text \<open>
  \<^verbatim>\<open>get_devices\<close>, from the outcome of the request: a dict is wrapped in a list, a list of
  strings becomes a list of \<^verbatim>\<open>{"id": x}\<close>, in any other list a non-dict \<open>x\<close> becomes
  \<^verbatim>\<open>{"raw": x}\<close>; another shape raises \<^verbatim>\<open>ValueError\<close>.
\<close>

definition is_str :: "json \<Rightarrow> bool" where
  "is_str v = (case v of JStr s \<Rightarrow> True | _ \<Rightarrow> False)"

definition get_devices :: "py_error + json \<Rightarrow> py_error + json list" where
  "get_devices reply =
     (case reply of
        Inl err \<Rightarrow> Inl err
      | Inr data \<Rightarrow>
          (case data of
             JDict d \<Rightarrow> Inr [data]
           | JList xs \<Rightarrow>
               (if list_all is_str xs then Inr (map (\<lambda>x. JDict [(''id'', x)]) xs)
                else Inr (map (\<lambda>x. case x of JDict d \<Rightarrow> x | _ \<Rightarrow> JDict [(''raw'', x)]) xs))
           | _ \<Rightarrow> Inl ValueError))"

text \<open>\<^verbatim>\<open>int(hostname.lstrip('h'))\<close>, \<^verbatim>\<open>None\<close> when it raises.\<close>

definition host_num :: "string \<Rightarrow> int option" where
  "host_num hostname = py_int_of_str (lstrip CHR ''h'' hostname)"

text \<open>\<^verbatim>\<open>if isinstance(x, str): x = [x]\<close>\<close>

definition listify :: "json \<Rightarrow> json" where
  "listify v = (case v of JStr s \<Rightarrow> JList [v] | _ \<Rightarrow> v)"

text \<open>
  One address of the \<^verbatim>\<open>ipv4\<close> loop; a value without \<^verbatim>\<open>strip\<close> raises inside the
  \<^verbatim>\<open>try\<close> and is passed over.
\<close>

definition ip_matches :: "int \<Rightarrow> json \<Rightarrow> bool" where
  "ip_matches n ip =
     (case ip of JStr s \<Rightarrow> endswith (strip s) (CHR ''.'' # str_int n) | _ \<Rightarrow> False)"

text \<open>The \<^verbatim>\<open>mac\<close> loop has no \<^verbatim>\<open>try\<close>: a value without \<^verbatim>\<open>strip\<close> raises.\<close>

fun mac_scan :: "int \<Rightarrow> json list \<Rightarrow> py_error + bool" where
  "mac_scan n [] = Inr False"
| "mac_scan n (m # ms) =
     (case m of
        JStr s \<Rightarrow> (if endswith (strip s) (fmt_02x n) then Inr True else mac_scan n ms)
      | _ \<Rightarrow> Inl AttributeError)"

definition ip_keys :: "string list" where
  "ip_keys = [''ipv4'', ''ipv4Address'', ''ip'', ''ipv4Addresses'']"

definition mac_keys :: "string list" where
  "mac_keys = [''mac'', ''macAddress'', ''macs'']"

text \<open>The body of the loop over \<^verbatim>\<open>devices\<close> for a dict: does it return this device?\<close>

definition device_matches :: "int option \<Rightarrow> (string \<times> json) list \<Rightarrow> py_error + bool" where
  "device_matches hn d =
     (case hn of
        None \<Rightarrow> Inr False
      | Some n \<Rightarrow>
          (if (case listify (or_chain d ip_keys) of
                 JList ips \<Rightarrow> list_ex (ip_matches n) ips | _ \<Rightarrow> False)
           then Inr True
           else (case listify (or_chain d mac_keys) of
                   JList ms \<Rightarrow> mac_scan n ms | _ \<Rightarrow> Inr False)))"

fun find_device_loop ::
  "int option \<Rightarrow> json list \<Rightarrow> py_error + (string \<times> json) list option" where
  "find_device_loop hn [] = Inr None"
| "find_device_loop hn (dev # devices) =
     (case dev of
        JDict d \<Rightarrow>
          (case device_matches hn d of
             Inl err \<Rightarrow> Inl err
           | Inr True \<Rightarrow> Inr (Some d)
           | Inr False \<Rightarrow> find_device_loop hn devices)
      | _ \<Rightarrow> find_device_loop hn devices)"

definition find_device_by_name ::
  "json list \<Rightarrow> string \<Rightarrow> py_error + (string \<times> json) list option" where
  "find_device_by_name devices hostname = find_device_loop (host_num hostname) devices"

definition ap_keys :: "string list" where
  "ap_keys = [''attachmentPoint'', ''attachmentPoints'', ''attachment_point'', ''attachment'']"

definition sw_keys :: "string list" where
  "sw_keys = [''switchDPID'', ''switch'', ''switchId'', ''dpid'']"

definition port_keys :: "string list" where
  "port_keys = [''port'', ''portNumber'', ''port_no'', ''port_no'']"

text \<open>
  \<^verbatim>\<open>pick_attachment\<close>: \<^verbatim>\<open>point.get\<close> raises on a point that is not a dict; a port
  that does not convert gives \<^verbatim>\<open>None\<close>.
\<close>

definition pick_attachment ::
  "(json \<Rightarrow> string) \<Rightarrow> (string \<times> json) list option \<Rightarrow> py_error + (string \<times> int) option" where
  "pick_attachment repr dev =
     (case dev of
        None \<Rightarrow> Inr None
      | Some d \<Rightarrow>
          (case or_chain d ap_keys of
             JList (point # _) \<Rightarrow>
               (case point of
                  JDict pd \<Rightarrow>
                    (case py_int (or_chain pd port_keys) of
                       Inr n \<Rightarrow> Inr (Some (py_str repr (or_chain pd sw_keys), n))
                     | Inl _ \<Rightarrow> Inr None)
                | _ \<Rightarrow> Inl AttributeError)
           | _ \<Rightarrow> Inr None))"

text \<open>The fallback \<^verbatim>\<open>heuristic(hostname)\<close> of \<^verbatim>\<open>main\<close>.\<close>

definition heuristic :: "string \<Rightarrow> (string \<times> int) option" where
  "heuristic hostname =
     (case py_int_of_str (lstrip CHR ''h'' hostname) of
        None \<Rightarrow> None
      | Some n \<Rightarrow> Some (''00:00:00:00:00:00:00:'' @ fmt_02d n, 1))"

section \<open>The fallback heuristic\<close>

lemma is_digit_not_space: "is_digit c \<Longrightarrow> \<not> int_isspace c"
  by (auto simp: is_digit_def int_isspace_def)

lemma is_digit_not_sign: "is_digit c \<Longrightarrow> c \<noteq> CHR ''-'' \<and> c \<noteq> CHR ''+'' \<and> c \<noteq> CHR ''_'' \<and> c \<noteq> CHR ''h'' \<and> c \<noteq> CHR '':''"
  by (auto simp: is_digit_def)

lemma int_strip_digits:
  assumes "ds \<noteq> []" and "list_all is_digit ds"
  shows "int_strip ds = ds"
proof -
  from assms have "\<not> int_isspace (hd ds)"
    by (cases ds) (auto simp: is_digit_not_space)
  with assms(1) have 1: "dropWhile int_isspace ds = ds" by (cases ds) auto
  from assms have "\<not> int_isspace (last ds)"
    by (metis is_digit_not_space last_in_set list_all_iff)
  with assms(1) have 2: "dropWhile int_isspace (rev ds) = rev ds"
    by (cases ds rule: rev_cases) auto
  from 1 2 show ?thesis by (simp add: int_strip_def)
qed

lemma digits_ok_digits: "ds \<noteq> [] \<Longrightarrow> list_all is_digit ds \<Longrightarrow> digits_ok ds"
  by (induction ds rule: digits_ok.induct) (auto simp: is_digit_not_sign)

lemma filter_digits: "list_all is_digit ds \<Longrightarrow> filter is_digit ds = ds"
  by (induction ds) auto

lemma py_int_of_str_digits:
  assumes "ds \<noteq> []" and "list_all is_digit ds"
  shows "py_int_of_str ds
     = (if length ds \<le> int_max_str_digits then Some (int (nat_of_digits ds)) else None)"
proof -
  from assms have "is_digit (hd ds)" by (cases ds) auto
  then have "hd ds \<noteq> CHR ''-''" "hd ds \<noteq> CHR ''+''" by (simp_all add: is_digit_not_sign)
  with assms show ?thesis
    by (simp add: py_int_of_str_def int_strip_digits digits_ok_digits filter_digits)
qed

lemma lstrip_h_digits:
  assumes "ds \<noteq> []" and "list_all is_digit ds"
  shows "lstrip CHR ''h'' (replicate k CHR ''h'' @ ds) = ds"
proof -
  from assms have "hd ds \<noteq> CHR ''h''" by (cases ds) (auto simp: is_digit_not_sign)
  with assms(1) have "dropWhile (\<lambda>x. x = CHR ''h'') ds = ds" by (cases ds) auto
  then show ?thesis by (induction k) (simp_all add: lstrip_def)
qed

lemma digit_char: "k < 10 \<Longrightarrow> is_digit (''0123456789'' ! k) \<and> digit_val (''0123456789'' ! k) = k"
proof -
  assume "k < 10"
  then have "k \<in> {0, 1, 2, 3, 4, 5, 6, 7, 8, 9}" by auto
  then show ?thesis by (auto simp: is_digit_def digit_val_def)
qed

lemma dec_nat_digits: "dec_nat n \<noteq> [] \<and> list_all is_digit (dec_nat n)"
proof (induction n rule: dec_nat.induct)
  case (1 n)
  show ?case
  proof (cases "n < 10")
    case True
    then show ?thesis by (simp add: dec_nat.simps [of n] digit_char)
  next
    case False
    with 1 show ?thesis by (simp add: dec_nat.simps [of n] digit_char)
  qed
qed

lemma nat_of_digits_snoc: "nat_of_digits (ds @ [c]) = 10 * nat_of_digits ds + digit_val c"
  by (simp add: nat_of_digits_def)

lemma nat_of_digits_dec_nat: "nat_of_digits (dec_nat n) = n"
proof (induction n rule: dec_nat.induct)
  case (1 n)
  show ?case
  proof (cases "n < 10")
    case True
    then show ?thesis
      by (simp add: dec_nat.simps [of n] digit_char nat_of_digits_def)
  next
    case False
    with 1 have "nat_of_digits (dec_nat (n div 10)) = n div 10" by simp
    with False show ?thesis
      by (simp add: dec_nat.simps [of n] nat_of_digits_snoc digit_char)
  qed
qed

lemma digit_val_less: "is_digit c \<Longrightarrow> digit_val c < 10"
  by (auto simp: is_digit_def digit_val_def)

lemma nat_of_digits_less: "list_all is_digit ds \<Longrightarrow> nat_of_digits ds < 10 ^ length ds"
proof (induction ds rule: rev_induct)
  case Nil
  then show ?case by (simp add: nat_of_digits_def)
next
  case (snoc c ds)
  then have "nat_of_digits ds < 10 ^ length ds" and "digit_val c < 10"
    by (simp_all add: digit_val_less)
  then have "10 * nat_of_digits ds + digit_val c < 10 * 10 ^ length ds" by linarith
  then show ?case by (simp add: nat_of_digits_snoc)
qed

lemma length_dec_nat: "n < 10 ^ k \<Longrightarrow> 0 < k \<Longrightarrow> length (dec_nat n) \<le> k"
proof (induction n arbitrary: k rule: dec_nat.induct)
  case (1 n)
  show ?case
  proof (cases "n < 10")
    case True
    with "1.prems" show ?thesis by (simp add: dec_nat.simps [of n] Suc_le_eq)
  next
    case False
    from "1.prems" obtain j where k: "k = Suc j" by (cases k) auto
    with "1.prems" False have j: "0 < j" by (cases j) auto
    from "1.prems" k have "n div 10 < 10 ^ j" by (simp add: less_mult_imp_div_less mult.commute)
    from "1.IH" [OF False this j] False k show ?thesis
      by (simp add: dec_nat.simps [of n])
  qed
qed

lemma fmt_02d_digits: "0 \<le> n \<Longrightarrow> fmt_02d n \<noteq> [] \<and> list_all is_digit (fmt_02d n)"
  using dec_nat_digits [of "nat n"] by (simp add: fmt_02d_def is_digit_def)

lemma nat_of_digits_fmt_02d: "0 \<le> n \<Longrightarrow> int (nat_of_digits (fmt_02d n)) = n"
proof -
  assume n: "0 \<le> n"
  have "nat_of_digits (CHR ''0'' # ds) = nat_of_digits ds" for ds
    by (simp add: nat_of_digits_def digit_val_def)
  with n show ?thesis by (simp add: fmt_02d_def nat_of_digits_dec_nat)
qed

lemma length_fmt_02d:
  assumes "ds \<noteq> []" and "list_all is_digit ds"
  shows "length (fmt_02d (int (nat_of_digits ds))) \<le> max 2 (length ds)"
proof -
  from assms(1) have l: "0 < length ds" by simp
  from length_dec_nat [OF nat_of_digits_less [OF assms(2)] l]
  have "length (dec_nat (nat_of_digits ds)) \<le> length ds" .
  moreover have "nat_of_digits ds < 10 \<Longrightarrow> length (dec_nat (nat_of_digits ds)) = 1"
    by (simp add: dec_nat.simps [of "nat_of_digits ds"])
  ultimately show ?thesis by (auto simp: fmt_02d_def)
qed

lemma heuristic_digits:
  assumes "ds \<noteq> []" and "list_all is_digit ds" and "length ds \<le> 4300"
  shows "heuristic (replicate k CHR ''h'' @ ds)
           = Some (''00:00:00:00:00:00:00:'' @ fmt_02d (int (nat_of_digits ds)), 1)
     \<and> py_int_of_str (fmt_02d (int (nat_of_digits ds))) = Some (int (nat_of_digits ds))
     \<and> length (filter (\<lambda>c. c = CHR '':'')
          (''00:00:00:00:00:00:00:'' @ fmt_02d (int (nat_of_digits ds)))) = 7"
proof -
  let ?n = "int (nat_of_digits ds)"
  have n: "0 \<le> ?n" by simp
  from assms(3) have lim: "length ds \<le> int_max_str_digits"
    by (simp add: int_max_str_digits_def)
  have 1: "heuristic (replicate k CHR ''h'' @ ds)
           = Some (''00:00:00:00:00:00:00:'' @ fmt_02d ?n, 1)"
    using lim
    by (simp add: heuristic_def lstrip_h_digits [OF assms(1,2)]
        py_int_of_str_digits [OF assms(1,2)])
  from fmt_02d_digits [OF n] have d: "fmt_02d ?n \<noteq> []" "list_all is_digit (fmt_02d ?n)"
    by simp_all
  from length_fmt_02d [OF assms(1,2)] assms(3)
  have "length (fmt_02d ?n) \<le> int_max_str_digits"
    by (simp add: int_max_str_digits_def)
  with py_int_of_str_digits [OF d] nat_of_digits_fmt_02d [OF n]
  have 2: "py_int_of_str (fmt_02d ?n) = Some ?n" by simp
  from d(2) have "filter (\<lambda>c. c = CHR '':'') (fmt_02d ?n) = []"
    by (auto simp: filter_empty_conv list_all_iff is_digit_not_sign)
  then have 3: "length (filter (\<lambda>c. c = CHR '':'')
          (''00:00:00:00:00:00:00:'' @ fmt_02d ?n)) = 7"
    by simp
  from 1 2 3 show ?thesis by simp
qed

lemma heuristic_long:
  assumes "list_all is_digit ds" and "4300 < length ds"
  shows "heuristic (replicate k CHR ''h'' @ ds) = None"
proof -
  from assms(2) have ne: "ds \<noteq> []" by auto
  from assms(2) have "\<not> length ds \<le> int_max_str_digits"
    by (simp add: int_max_str_digits_def)
  then show ?thesis
    by (simp add: heuristic_def lstrip_h_digits [OF ne assms(1)]
        py_int_of_str_digits [OF ne assms(1)])
qed

lemma heuristic_other:
  assumes "lstrip CHR ''h'' hostname = c # rest" and "\<not> int_isspace c"
    and "c \<noteq> CHR ''-''" and "c \<noteq> CHR ''+''" and "\<not> is_digit c"
  shows "heuristic hostname = None"
  using py_int_of_str_bad_head [OF assms(2-5), of rest] assms(1)
  by (simp add: heuristic_def)

text \<open>A string of 4301 digits, one more than the conversion accepts.\<close>

definition long_digits :: string where
  "long_digits = replicate 4301 CHR ''1''"

lemma digits_replicate: "list_all is_digit (replicate n CHR ''1'')"
  by (induction n) (simp_all add: is_digit_def)

lemma long_digits_facts: "list_all is_digit long_digits" "length long_digits = 4301"
  unfolding long_digits_def by (rule digits_replicate) (simp only: length_replicate)

text \<open>
  Claim C9, as amended. For a host identifier made of any number of \<^verbatim>\<open>h\<close> characters
  followed by a non-empty string of at most 4300 decimal digits denoting \<open>n\<close>, the
  fallback gives the switch identifier \<^verbatim>\<open>00:00:00:00:00:00:00:\<close> followed by \<open>n\<close> in
  decimal, zero-padded to two digits, with port 1. The identifier has seven colons
  (eight fields), and its last field reads back as \<open>n\<close>. With more than 4300 digits the
  conversion raises and the fallback gives no attachment point; so it does when what
  is left of the host identifier after its leading \<^verbatim>\<open>h\<close> characters starts with a
  character that \<^verbatim>\<open>int()\<close> takes neither for whitespace, nor for a sign, nor for a
  digit.
\<close>

theorem heuristic_attachment:
  "(ds \<noteq> [] \<and> list_all is_digit ds \<and> length ds \<le> 4300 \<longrightarrow>
      heuristic (replicate k CHR ''h'' @ ds)
        = Some (''00:00:00:00:00:00:00:'' @ fmt_02d (int (nat_of_digits ds)), 1)
      \<and> py_int_of_str (fmt_02d (int (nat_of_digits ds))) = Some (int (nat_of_digits ds))
      \<and> length (filter (\<lambda>c. c = CHR '':'')
            (''00:00:00:00:00:00:00:'' @ fmt_02d (int (nat_of_digits ds)))) = 7)
   \<and> (list_all is_digit ds \<and> 4300 < length ds \<longrightarrow>
        heuristic (replicate k CHR ''h'' @ ds) = None)
   \<and> (lstrip CHR ''h'' hostname = c # rest \<and> \<not> int_isspace c
        \<and> c \<noteq> CHR ''-'' \<and> c \<noteq> CHR ''+'' \<and> \<not> is_digit c
      \<longrightarrow> heuristic hostname = None)"
proof (intro conjI)
  show "ds \<noteq> [] \<and> list_all is_digit ds \<and> length ds \<le> 4300 \<longrightarrow>
      heuristic (replicate k CHR ''h'' @ ds)
        = Some (''00:00:00:00:00:00:00:'' @ fmt_02d (int (nat_of_digits ds)), 1)
      \<and> py_int_of_str (fmt_02d (int (nat_of_digits ds))) = Some (int (nat_of_digits ds))
      \<and> length (filter (\<lambda>c. c = CHR '':'')
            (''00:00:00:00:00:00:00:'' @ fmt_02d (int (nat_of_digits ds)))) = 7"
    using heuristic_digits [of ds k] by (intro impI) (elim conjE)
  show "list_all is_digit ds \<and> 4300 < length ds \<longrightarrow>
        heuristic (replicate k CHR ''h'' @ ds) = None"
    using heuristic_long [of ds k] by (intro impI) (elim conjE)
  show "lstrip CHR ''h'' hostname = c # rest \<and> \<not> int_isspace c
        \<and> c \<noteq> CHR ''-'' \<and> c \<noteq> CHR ''+'' \<and> \<not> is_digit c
      \<longrightarrow> heuristic hostname = None"
    using heuristic_other [of hostname c rest] by (intro impI) (elim conjE)
qed

theorem heuristic_attachment_witness:
  "heuristic ''h3'' = Some (''00:00:00:00:00:00:00:03'', 1)
   \<and> py_int_of_str ''03'' = Some 3
   \<and> heuristic (CHR ''h'' # long_digits) = None
   \<and> heuristic ''s1'' = None
   \<and> heuristic [CHR ''h'', CHR 0x1C, CHR ''7''] = None"
proof -
  have a: "heuristic ''h3'' = Some (''00:00:00:00:00:00:00:03'', 1)
      \<and> py_int_of_str ''03'' = Some 3 \<and> heuristic ''s1'' = None"
    using heuristic_attachment [where ds = "''3''" and k = 1 and hostname = "''s1''"
        and c = "CHR ''s''" and rest = "''1''"]
    by (simp add: is_digit_def nat_of_digits_def digit_val_def fmt_02d_def lstrip_def
        int_isspace_def)
  have b: "heuristic (CHR ''h'' # long_digits) = None"
    using heuristic_attachment [where ds = long_digits and k = "Suc 0"] long_digits_facts
    by simp
  have c: "heuristic [CHR ''h'', CHR 0x1C, CHR ''7''] = None"
    using heuristic_attachment [where hostname = "[CHR ''h'', CHR 0x1C, CHR ''7'']"
        and c = "CHR 0x1C" and rest = "''7''" and ds = "[]"]
    by (simp add: is_digit_def lstrip_def int_isspace_def)
  from a b c show ?thesis by simp
qed

text \<open>
  Claim C9 as stated fails for a prefix other than \<^verbatim>\<open>h\<close>: only leading \<^verbatim>\<open>h\<close>
  characters are stripped before the conversion, so \<^verbatim>\<open>host1\<close> (prefix \<^verbatim>\<open>host\<close>,
  ordinal 1) gets no attachment point.
\<close>

theorem heuristic_prefix_counterexample:
  "heuristic ''host1'' = None"
  by (simp add: heuristic_def int_parse_defs)

section \<open>The run: \<^verbatim>\<open>main\<close>\<close>

text \<open>
  The command line and the outside world of one run: the outcomes of the two queries,
  which texts the standard output encodes, whether the diagnostic re-fetch of the
  links raises, and for which flow request \<^verbatim>\<open>requests.post\<close> raises. The encoding
  of the standard output is consulted for the one print that writes a payload value as
  it is, the print of a non-dict topology entry; the other messages of the run are
  taken to be written without error.
\<close>

record args =
  args_src :: string
  args_dst :: string
  args_floodlight :: string
  args_bidirectional :: bool

record env =
  devices_reply :: "py_error + json"
  topology_reply :: "py_error + json"
  stdout_encodes :: "string \<Rightarrow> bool"
  raw_check_raises :: bool
  post_raises :: "request \<Rightarrow> bool"

datatype exit_reason = AttachmentUnresolved | EmptyTopology | NoPath

datatype outcome = Completed | SystemExit exit_reason | Uncaught py_error

text \<open>The exit status of the process: \<^verbatim>\<open>SystemExit\<close> with a message and an uncaught
  exception both end it with status 1.\<close>

fun exit_status :: "outcome \<Rightarrow> int" where
  "exit_status Completed = 0"
| "exit_status (SystemExit _) = 1"
| "exit_status (Uncaught _) = 1"

text \<open>
  Lines 272 to 315: the devices, the two lookups, the two attachment points, and the
  fallback for each one that is \<^verbatim>\<open>None\<close>.
\<close>

definition resolve_attachments ::
  "(json \<Rightarrow> string) \<Rightarrow> args \<Rightarrow> env
     \<Rightarrow> py_error + ((string \<times> int) option \<times> (string \<times> int) option)" where
  "resolve_attachments repr a env =
     (case get_devices (devices_reply env) of
        Inl err \<Rightarrow> Inl err
      | Inr devices \<Rightarrow>
     (case find_device_by_name devices (args_src a) of
        Inl err \<Rightarrow> Inl err
      | Inr src_dev \<Rightarrow>
     (case find_device_by_name devices (args_dst a) of
        Inl err \<Rightarrow> Inl err
      | Inr dst_dev \<Rightarrow>
     (case pick_attachment repr src_dev of
        Inl err \<Rightarrow> Inl err
      | Inr src_ap \<Rightarrow>
     (case pick_attachment repr dst_dev of
        Inl err \<Rightarrow> Inl err
      | Inr dst_ap \<Rightarrow>
          Inr (case src_ap of None \<Rightarrow> heuristic (args_src a) | Some ap \<Rightarrow> Some ap,
               case dst_ap of None \<Rightarrow> heuristic (args_dst a) | Some ap \<Rightarrow> Some ap))))))"

text \<open>
  The two assignments that override the ends of the path:
  \<^verbatim>\<open>hop_ports[sw_path[0]] = (first_in, hop_ports[sw_path[0]][1])\<close> and
  \<^verbatim>\<open>hop_ports[sw_path[-1]] = (hop_ports[sw_path[-1]][0], last_out)\<close>.
  An empty path or a missing key raises.
\<close>

definition override_ends ::
  "(string, port \<times> port) fmap \<Rightarrow> string list \<Rightarrow> int \<Rightarrow> int
     \<Rightarrow> py_error + (string, port \<times> port) fmap" where
  "override_ends hop_ports sw_path first_in last_out =
     (if sw_path = [] then Inl IndexError
      else (case fmlookup hop_ports (hd sw_path) of
              None \<Rightarrow> Inl KeyError
            | Some (_, out0) \<Rightarrow>
                (case fmlookup (fmupd (hd sw_path) (Some first_in, out0) hop_ports)
                        (last sw_path) of
                   None \<Rightarrow> Inl KeyError
                 | Some (in1, _) \<Rightarrow>
                     Inr (fmupd (last sw_path) (in1, Some last_out)
                           (fmupd (hd sw_path) (Some first_in, out0) hop_ports)))))"

text \<open>\<^verbatim>\<open>enumerate(sw_path)\<close>\<close>

definition enumerate_path :: "string list \<Rightarrow> (nat \<times> string) list" where
  "enumerate_path sw_path = zip [0..<length sw_path] sw_path"

text \<open>
  One installation loop. Every request is appended to the calls made so far; the loop
  ends early, with the exception, when the lookup or the post raises.
\<close>

fun push_all ::
  "(request \<Rightarrow> bool) \<Rightarrow> string \<Rightarrow> string \<Rightarrow> (string, port \<times> port) fmap \<Rightarrow> int
     \<Rightarrow> (nat \<times> string) list \<Rightarrow> request list \<Rightarrow> py_error option \<times> request list" where
  "push_all post fl prefix hop_ports default_out [] calls = (None, calls)"
| "push_all post fl prefix hop_ports default_out ((i, sw) # rest) calls =
     (case fmlookup hop_ports sw of
        None \<Rightarrow> (Some KeyError, calls)
      | Some (in_p, out_p) \<Rightarrow>
          (if post (push_flow fl sw (prefix @ str_int (int i + 1)) in_p
                     (case out_p of None \<Rightarrow> Some default_out | Some p \<Rightarrow> Some p) 32768)
           then (Some RequestError,
                 calls @ [push_flow fl sw (prefix @ str_int (int i + 1)) in_p
                     (case out_p of None \<Rightarrow> Some default_out | Some p \<Rightarrow> Some p) 32768])
           else push_all post fl prefix hop_ports default_out rest
                 (calls @ [push_flow fl sw (prefix @ str_int (int i + 1)) in_p
                     (case out_p of None \<Rightarrow> Some default_out | Some p \<Rightarrow> Some p) 32768])))"

definition fwd_prefix :: "args \<Rightarrow> string" where
  "fwd_prefix a = ''fwd_'' @ args_src a @ ''_to_'' @ args_dst a @ ''_''"

definition rev_prefix :: "args \<Rightarrow> string" where
  "rev_prefix a = ''rev_'' @ args_dst a @ ''_to_'' @ args_src a @ ''_''"

text \<open>Lines 353 to 387, for a found path: the forward loop, then the reverse one.\<close>

definition install_flows ::
  "(request \<Rightarrow> bool) \<Rightarrow> string \<Rightarrow> args \<Rightarrow> graph \<Rightarrow> string list \<Rightarrow> int \<Rightarrow> int
     \<Rightarrow> outcome \<times> request list" where
  "install_flows post fl a graph sw_path host_src_port host_dst_port =
     (case override_ends (path_ports_for_switches graph sw_path) sw_path
             host_src_port host_dst_port of
        Inl err \<Rightarrow> (Uncaught err, [])
      | Inr hop_ports \<Rightarrow>
     (case push_all post fl (fwd_prefix a) hop_ports host_dst_port (enumerate_path sw_path) [] of
        (Some err, calls) \<Rightarrow> (Uncaught err, calls)
      | (None, calls) \<Rightarrow>
          (if args_bidirectional a
           then (case override_ends (path_ports_for_switches graph (rev sw_path))
                        (rev sw_path) host_dst_port host_src_port of
                   Inl err \<Rightarrow> (Uncaught err, calls)
                 | Inr rev_hop_ports \<Rightarrow>
                     (case push_all post fl (rev_prefix a) rev_hop_ports host_src_port
                             (enumerate_path (rev sw_path)) calls of
                        (Some err, calls') \<Rightarrow> (Uncaught err, calls')
                      | (None, calls') \<Rightarrow> (Completed, calls')))
           else (Completed, calls))))"

text \<open>Lines 344 to 349: the path, or the exit when there is none.\<close>

definition route_and_install ::
  "(request \<Rightarrow> bool) \<Rightarrow> string \<Rightarrow> args \<Rightarrow> graph \<Rightarrow> string \<times> int \<Rightarrow> string \<times> int
     \<Rightarrow> outcome \<times> request list" where
  "route_and_install post fl a graph src_ap dst_ap =
     (case shortest_switch_path graph (fst src_ap) (fst dst_ap) of
        Inl err \<Rightarrow> (Uncaught err, [])
      | Inr None \<Rightarrow>
          (if fst src_ap = fst dst_ap
           then install_flows post fl a graph [fst src_ap] (snd src_ap) (snd dst_ap)
           else (SystemExit NoPath, []))
      | Inr (Some sw_path) \<Rightarrow>
          install_flows post fl a graph sw_path (snd src_ap) (snd dst_ap))"

text \<open>\<^verbatim>\<open>main\<close>: the outcome of the run and the flow requests it made, in order.\<close>

definition main :: "(json \<Rightarrow> string) \<Rightarrow> args \<Rightarrow> env \<Rightarrow> outcome \<times> request list" where
  "main repr a env =
     (case resolve_attachments repr a env of
        Inl err \<Rightarrow> (Uncaught err, [])
      | Inr (src_ap, dst_ap) \<Rightarrow>
     (case src_ap of
        None \<Rightarrow> (SystemExit AttachmentUnresolved, [])
      | Some src_at \<Rightarrow>
     (case dst_ap of
        None \<Rightarrow> (SystemExit AttachmentUnresolved, [])
      | Some dst_at \<Rightarrow>
     (case get_topology_links repr (stdout_encodes env) (topology_reply env) of
        Inl err \<Rightarrow> (Uncaught err, [])
      | Inr links \<Rightarrow>
          (if length links = 0
           then (if raw_check_raises env then (Uncaught RequestError, [])
                 else (SystemExit EmptyTopology, []))
           else route_and_install (post_raises env)
                  (rstrip CHR ''/'' (args_floodlight a)) a
                  (build_switch_graph links) src_at dst_at)))))"

section \<open>Aborts happen before any installation\<close>

lemma shortest_switch_path_same: "shortest_switch_path g s s = Inr (Some [s])"
  by (simp add: shortest_switch_path_def)

lemma route_and_install_calls:
  assumes "snd (route_and_install post fl a g src_at dst_at) \<noteq> []"
  shows "\<exists>p. shortest_switch_path g (fst src_at) (fst dst_at) = Inr (Some p)"
proof (cases "shortest_switch_path g (fst src_at) (fst dst_at)")
  case (Inl err)
  with assms show ?thesis by (simp add: route_and_install_def)
next
  case (Inr r)
  show ?thesis
  proof (cases r)
    case None
    with Inr have "fst src_at \<noteq> fst dst_at"
      using shortest_switch_path_same [of g "fst src_at"] by auto
    with Inr None assms show ?thesis by (simp add: route_and_install_def)
  next
    case (Some p)
    with Inr show ?thesis by simp
  qed
qed

lemma main_calls:
  assumes "snd (main repr a env) \<noteq> []"
  shows "\<exists>src_at dst_at links p.
      resolve_attachments repr a env = Inr (Some src_at, Some dst_at)
    \<and> get_topology_links repr (stdout_encodes env) (topology_reply env) = Inr links \<and> links \<noteq> []
    \<and> shortest_switch_path (build_switch_graph links) (fst src_at) (fst dst_at) = Inr (Some p)"
proof (cases "resolve_attachments repr a env")
  case (Inl err)
  with assms show ?thesis by (simp add: main_def)
next
  case (Inr aps)
  obtain src_ap dst_ap where aps: "aps = (src_ap, dst_ap)" by (cases aps)
  show ?thesis
  proof (cases src_ap)
    case None
    with Inr aps assms show ?thesis by (simp add: main_def)
  next
    case (Some src_at)
    note s = this
    show ?thesis
    proof (cases dst_ap)
      case None
      with Inr aps s assms show ?thesis by (simp add: main_def)
    next
      case (Some dst_at)
      note d = this
      show ?thesis
      proof (cases "get_topology_links repr (stdout_encodes env) (topology_reply env)")
        case (Inl err)
        with Inr aps s d assms show ?thesis by (simp add: main_def)
      next
        case links: (Inr links)
        show ?thesis
        proof (cases "links = []")
          case True
          with Inr aps s d links assms show ?thesis
            by (simp add: main_def split: if_splits)
        next
          case False
          with Inr aps s d links
          have "main repr a env = route_and_install (post_raises env)
                  (rstrip CHR ''/'' (args_floodlight a)) a
                  (build_switch_graph links) src_at dst_at"
            by (simp add: main_def)
          with assms route_and_install_calls obtain p where
            "shortest_switch_path (build_switch_graph links) (fst src_at) (fst dst_at)
               = Inr (Some p)"
            by metis
          with Inr aps s d links False show ?thesis by simp
        qed
      qed
    qed
  qed
qed

text \<open>
  Claim C3. In every run, a flow request is made only after both attachment points are
  resolved, the normalized topology is non-empty and a switch path is found. When an
  attachment point is unresolved, when the topology is empty, or when no path exists,
  the run ends with a non-zero exit status and no flow request is made.
\<close>

theorem no_installation_before_path:
  "(snd (main repr a env) \<noteq> [] \<longrightarrow>
      (\<exists>src_at dst_at links p.
          resolve_attachments repr a env = Inr (Some src_at, Some dst_at)
        \<and> get_topology_links repr (stdout_encodes env) (topology_reply env) = Inr links \<and> links \<noteq> []
        \<and> shortest_switch_path (build_switch_graph links) (fst src_at) (fst dst_at)
            = Inr (Some p)))
   \<and> (resolve_attachments repr a env = Inr (src_ap, dst_ap) \<and> (src_ap = None \<or> dst_ap = None)
        \<longrightarrow> main repr a env = (SystemExit AttachmentUnresolved, []))
   \<and> (resolve_attachments repr a env = Inr (Some src_at, Some dst_at)
        \<and> get_topology_links repr (stdout_encodes env) (topology_reply env) = Inr []
        \<longrightarrow> snd (main repr a env) = [] \<and> exit_status (fst (main repr a env)) = 1
            \<and> (\<not> raw_check_raises env \<longrightarrow> fst (main repr a env) = SystemExit EmptyTopology))
   \<and> (resolve_attachments repr a env = Inr (Some src_at, Some dst_at)
        \<and> get_topology_links repr (stdout_encodes env) (topology_reply env) = Inr links \<and> links \<noteq> []
        \<and> shortest_switch_path (build_switch_graph links) (fst src_at) (fst dst_at) = Inr None
        \<longrightarrow> main repr a env = (SystemExit NoPath, []))
   \<and> exit_status (SystemExit reason) = 1"
proof (intro conjI impI)
  show "\<exists>src_at dst_at links p.
          resolve_attachments repr a env = Inr (Some src_at, Some dst_at)
        \<and> get_topology_links repr (stdout_encodes env) (topology_reply env) = Inr links \<and> links \<noteq> []
        \<and> shortest_switch_path (build_switch_graph links) (fst src_at) (fst dst_at)
            = Inr (Some p)"
    if "snd (main repr a env) \<noteq> []"
    using that by (rule main_calls)
  show "main repr a env = (SystemExit AttachmentUnresolved, [])"
    if "resolve_attachments repr a env = Inr (src_ap, dst_ap) \<and> (src_ap = None \<or> dst_ap = None)"
    using that by (auto simp: main_def split: option.splits)
  assume e: "resolve_attachments repr a env = Inr (Some src_at, Some dst_at)
        \<and> get_topology_links repr (stdout_encodes env) (topology_reply env) = Inr []"
  then show "snd (main repr a env) = []" by (simp add: main_def)
  from e show "exit_status (fst (main repr a env)) = 1"
    by (cases "raw_check_raises env") (simp_all add: main_def)
  from e show "fst (main repr a env) = SystemExit EmptyTopology" if "\<not> raw_check_raises env"
    using that by (simp add: main_def)
next
  assume n: "resolve_attachments repr a env = Inr (Some src_at, Some dst_at)
        \<and> get_topology_links repr (stdout_encodes env) (topology_reply env) = Inr links \<and> links \<noteq> []
        \<and> shortest_switch_path (build_switch_graph links) (fst src_at) (fst dst_at) = Inr None"
  then have "fst src_at \<noteq> fst dst_at"
    using shortest_switch_path_same [of "build_switch_graph links" "fst src_at"] by auto
  with n show "main repr a env = (SystemExit NoPath, [])"
    by (simp add: main_def route_and_install_def)
next
  show "exit_status (SystemExit reason) = 1" by simp
qed

section \<open>Both hosts on one switch\<close>







section \<open>Example runs\<close>

text \<open>
  Three switches in a line and no learned devices: the attachment points of \<^verbatim>\<open>h1\<close>
  and \<^verbatim>\<open>h3\<close> come from the fallback.
\<close>

definition demo_args :: args where
  "demo_args = \<lparr>args_src = ''h1'', args_dst = ''h3'',
     args_floodlight = ''http://127.0.0.1:8080/'', args_bidirectional = False\<rparr>"

definition line_payload :: json where
  "line_payload = JList
     [JDict [(''src-switch'', JStr ''00:00:00:00:00:00:00:01''), (''src-port'', JInt 2),
             (''dst-switch'', JStr ''00:00:00:00:00:00:00:02''), (''dst-port'', JInt 2)],
      JDict [(''src-switch'', JStr ''00:00:00:00:00:00:00:02''), (''src-port'', JInt 3),
             (''dst-switch'', JStr ''00:00:00:00:00:00:00:03''), (''dst-port'', JInt 2)]]"

definition split_payload :: json where
  "split_payload = JList
     [JDict [(''src-switch'', JStr ''00:00:00:00:00:00:00:01''), (''src-port'', JInt 2),
             (''dst-switch'', JStr ''00:00:00:00:00:00:00:02''), (''dst-port'', JInt 2)]]"

definition demo_env :: "json \<Rightarrow> env" where
  "demo_env topology = \<lparr>devices_reply = Inr (JList []), topology_reply = Inr topology,
     stdout_encodes = (\<lambda>_. True), raw_check_raises = False, post_raises = (\<lambda>_. False)\<rparr>"

definition line_links :: "link list" where
  "line_links =
     [\<lparr>src = ''00:00:00:00:00:00:00:01'', src_port = Some 2,
       dst = ''00:00:00:00:00:00:00:02'', dst_port = Some 2\<rparr>,
      \<lparr>src = ''00:00:00:00:00:00:00:02'', src_port = Some 3,
       dst = ''00:00:00:00:00:00:00:03'', dst_port = Some 2\<rparr>]"

definition demo_calls :: "request list" where
  "demo_calls =
     [push_flow ''http://127.0.0.1:8080'' ''00:00:00:00:00:00:00:01'' ''fwd_h1_to_h3_1''
        (Some 1) (Some 2) 32768,
      push_flow ''http://127.0.0.1:8080'' ''00:00:00:00:00:00:00:02'' ''fwd_h1_to_h3_2''
        (Some 2) (Some 3) 32768,
      push_flow ''http://127.0.0.1:8080'' ''00:00:00:00:00:00:00:03'' ''fwd_h1_to_h3_3''
        (Some 2) (Some 1) 32768]"

lemma demo_attachments:
  "resolve_attachments repr demo_args (demo_env topology)
     = Inr (Some (''00:00:00:00:00:00:00:01'', 1), Some (''00:00:00:00:00:00:00:03'', 1))"
  by (simp add: resolve_attachments_def demo_args_def demo_env_def get_devices_def
      find_device_by_name_def pick_attachment_def heuristic_def fmt_02d_def int_parse_defs)

lemma line_payload_links:
  "get_topology_links repr enc (Inr line_payload) = Inr line_links"
  by (simp add: line_payload_def line_links_def normalize_defs)

lemma line_links_graph:
  "build_switch_graph line_links = fmap_of_list
     [(''00:00:00:00:00:00:00:01'', [(''00:00:00:00:00:00:00:02'', Some 2, Some 2)]),
      (''00:00:00:00:00:00:00:02'', [(''00:00:00:00:00:00:00:01'', Some 2, Some 2),
                                     (''00:00:00:00:00:00:00:03'', Some 3, Some 2)]),
      (''00:00:00:00:00:00:00:03'', [(''00:00:00:00:00:00:00:02'', Some 2, Some 3)])]"
  by (rule fmap_ext)
    (auto simp: build_switch_graph_def line_links_def add_link_def graph_append_def graph_get_def)

lemma line_links_path:
  "shortest_switch_path (build_switch_graph line_links)
       ''00:00:00:00:00:00:00:01'' ''00:00:00:00:00:00:00:03''
     = Inr (Some [''00:00:00:00:00:00:00:01'', ''00:00:00:00:00:00:00:02'',
                  ''00:00:00:00:00:00:00:03''])"
  by (simp add: line_links_graph shortest_switch_path_def graph_get_def)

lemma line_links_install:
  "install_flows (\<lambda>_. False) ''http://127.0.0.1:8080'' demo_args (build_switch_graph line_links)
      [''00:00:00:00:00:00:00:01'', ''00:00:00:00:00:00:00:02'', ''00:00:00:00:00:00:00:03'']
      1 1
     = (Completed, demo_calls)"
  by (simp add: line_links_graph install_flows_def path_ports_for_switches_def hop_ports_at_def
      graph_get_def override_ends_def enumerate_path_def fwd_prefix_def demo_args_def
      demo_calls_def str_int_def upt_rec)

lemma demo_run: "main repr demo_args (demo_env line_payload) = (Completed, demo_calls)"
proof -
  have "rstrip CHR ''/'' (args_floodlight demo_args) = ''http://127.0.0.1:8080''"
    by (simp add: rstrip_def demo_args_def)
  moreover have "topology_reply (demo_env line_payload) = Inr line_payload"
    "post_raises (demo_env line_payload) = (\<lambda>_. False)"
    by (simp_all add: demo_env_def)
  moreover have "line_links \<noteq> []" by (simp add: line_links_def)
  ultimately show ?thesis
    by (simp add: main_def demo_attachments line_payload_links route_and_install_def
        line_links_path line_links_install)
qed

lemma empty_payload_links: "get_topology_links repr enc (Inr (JList [])) = Inr []"
  by (simp add: get_topology_links_def)

lemma demo_env_fields:
  "topology_reply (demo_env t) = Inr t" "post_raises (demo_env t) = (\<lambda>_. False)"
  "raw_check_raises (demo_env t) = False"
  by (simp_all add: demo_env_def)

lemma empty_run: "main repr demo_args (demo_env (JList [])) = (SystemExit EmptyTopology, [])"
  by (simp add: main_def demo_attachments empty_payload_links demo_env_fields)

lemma unresolved_attachments:
  "resolve_attachments repr (demo_args\<lparr>args_dst := ''server''\<rparr>) (demo_env topology)
     = Inr (Some (''00:00:00:00:00:00:00:01'', 1), None)"
  by (simp add: resolve_attachments_def demo_args_def demo_env_def get_devices_def
      find_device_by_name_def pick_attachment_def heuristic_def fmt_02d_def int_parse_defs)

lemma unresolved_run:
  "main repr (demo_args\<lparr>args_dst := ''server''\<rparr>) (demo_env line_payload)
     = (SystemExit AttachmentUnresolved, [])"
  by (simp add: main_def unresolved_attachments)

definition split_links :: "link list" where
  "split_links =
     [\<lparr>src = ''00:00:00:00:00:00:00:01'', src_port = Some 2,
       dst = ''00:00:00:00:00:00:00:02'', dst_port = Some 2\<rparr>]"

lemma split_payload_links:
  "get_topology_links repr enc (Inr split_payload) = Inr split_links"
  by (simp add: split_payload_def split_links_def normalize_defs)

lemma split_links_path:
  "shortest_switch_path (build_switch_graph split_links)
       ''00:00:00:00:00:00:00:01'' ''00:00:00:00:00:00:00:03'' = Inr None"
  by (simp add: build_switch_graph_def split_links_def add_link_def graph_append_def
      shortest_switch_path_def graph_get_def)

lemma split_run: "main repr demo_args (demo_env split_payload) = (SystemExit NoPath, [])"
proof -
  have "topology_reply (demo_env split_payload) = Inr split_payload"
    by (simp add: demo_env_def)
  moreover have "split_links \<noteq> []" by (simp add: split_links_def)
  ultimately show ?thesis
    by (simp add: main_def demo_attachments split_payload_links route_and_install_def
        split_links_path)
qed

theorem no_installation_before_path_witness:
  "main (\<lambda>_. []) demo_args (demo_env line_payload) = (Completed, demo_calls)
   \<and> length demo_calls = 3
   \<and> shortest_switch_path (build_switch_graph line_links)
       ''00:00:00:00:00:00:00:01'' ''00:00:00:00:00:00:00:03''
       = Inr (Some [''00:00:00:00:00:00:00:01'', ''00:00:00:00:00:00:00:02'',
                    ''00:00:00:00:00:00:00:03''])
   \<and> main (\<lambda>_. []) (demo_args\<lparr>args_dst := ''server''\<rparr>) (demo_env line_payload)
       = (SystemExit AttachmentUnresolved, [])
   \<and> main (\<lambda>_. []) demo_args (demo_env (JList [])) = (SystemExit EmptyTopology, [])
   \<and> main (\<lambda>_. []) demo_args (demo_env split_payload) = (SystemExit NoPath, [])"
  using
    no_installation_before_path [where repr = "\<lambda>_. []" and a = demo_args
      and env = "demo_env line_payload"]
    no_installation_before_path [where repr = "\<lambda>_. []"
      and a = "demo_args\<lparr>args_dst := ''server''\<rparr>" and env = "demo_env line_payload"
      and src_ap = "Some (''00:00:00:00:00:00:00:01'', 1)" and dst_ap = None]
    no_installation_before_path [where repr = "\<lambda>_. []" and a = demo_args
      and env = "demo_env (JList [])"
      and src_at = "(''00:00:00:00:00:00:00:01'', 1)"
      and dst_at = "(''00:00:00:00:00:00:00:03'', 1)"]
    no_installation_before_path [where repr = "\<lambda>_. []" and a = demo_args
      and env = "demo_env split_payload"
      and src_at = "(''00:00:00:00:00:00:00:01'', 1)"
      and dst_at = "(''00:00:00:00:00:00:00:03'', 1)" and links = split_links]
  by (simp add: demo_run empty_run unresolved_run split_run line_links_path demo_calls_def)






end
